theory Spec2Isabelle
  imports Main "HOL-Library.Char_ord" "HOL-Library.List_Lexorder"
begin

section \<open>Calendarr: ingestion of two calendar feeds into SQLite and a cached range query\<close>

text \<open>
  The development follows the database-backed server (\<^verbatim>\<open>src/unnamed/part_000\<close>):
  \<^verbatim>\<open>fetchWithRetries\<close>, \<^verbatim>\<open>fetchAndStoreEvents\<close> and the handler of
  \<^verbatim>\<open>GET /events.json\<close>. Strings are byte lists (UTF-8), as SQLite compares them.
  The libraries the server calls are outside the repository; they enter the model as follows.
  \<^item> axios: a parameter \<open>axios_get url attempt\<close>, the outcome of the attempt-th request.
  \<^item> ical.js: a parameter \<open>ICAL_parse\<close> from the document to its vevent components or a
    parser error; a vevent is the record of the six property values the code reads.
  \<^item> sqlite3: the \<open>events\<close> table as a list of rows in rowid order and the AUTOINCREMENT
    counter (a natural number: the 64-bit limit of rowids is out of reach); the statements
    of the source are functions on it.
  \<^item> node-cache: a map from key to value and expiry instant, read and written at a given clock
    value in milliseconds.
\<close>

subsection \<open>Data model\<close>

type_synonym url = string

text \<open>The object literal built at lines 68-75: one normalized event.\<close>

record event =
  title :: string
  start :: string
  end' :: string
  color :: string
  description :: string
  location :: string

text \<open>A row of the table created at lines 28-36.\<close>

record row =
  r_id :: nat
  r_title :: string
  r_start :: string
  r_end :: string
  r_color :: string
  r_description :: string
  r_location :: string

text \<open>
  What the code reads of one \<^verbatim>\<open>vevent\<close>: \<open>None\<close> is the \<^verbatim>\<open>null\<close> that ical.js
  returns for an absent property; \<open>startDate\<close> and \<open>endDate\<close> hold the \<^verbatim>\<open>toString()\<close>
  of the instant.
\<close>

record vevent =
  summary :: "string option"
  startDate :: "string option"
  endDate :: "string option"
  status :: "string option"
  v_description :: "string option"
  v_location :: "string option"

datatype error =
    FetchFailed url nat
  | ParserError string
  | TypeError

text \<open>Everything the server prints, requests or touches, in the order it happens.\<close>

datatype effect =
    Fetching url nat
  | AttemptFailed nat string
  | Sleep nat
  | ErrorFetchingAndStoring error
  | DatabaseError
  | UpdatingExisting string
  | InsertingNew string
  | CacheGet string
  | CacheSet string
  | ReturningCached string string
  | FetchingPeriod string string
  | DbAll string string

subsection \<open>The events table\<close>

record database =
  rows :: "row list"
  seq :: nat

text \<open>\<^verbatim>\<open>WHERE title = ? AND start = ? AND end = ?\<close> (lines 80 and 84).\<close>

definition same_key :: "event \<Rightarrow> row \<Rightarrow> bool" where
  "same_key ev r = (r_title r = title ev \<and> r_start r = start ev \<and> r_end r = end' ev)"

text \<open>\<^verbatim>\<open>db.get\<close> of the SELECT at line 84: the first matching row, if any.\<close>

definition db_get :: "database \<Rightarrow> event \<Rightarrow> row option" where
  "db_get d ev = find (same_key ev) (rows d)"

text \<open>AUTOINCREMENT: one more than the largest rowid the table ever held.\<close>

definition next_id :: "database \<Rightarrow> nat" where
  "next_id d = Suc (fold max (map r_id (rows d)) (seq d))"

text \<open>\<^verbatim>\<open>stmtInsert.run(title, start, end, color, description, location)\<close> (lines 79, 94).\<close>

definition stmtInsert_run :: "event \<Rightarrow> database \<Rightarrow> database" where
  "stmtInsert_run ev d =
     \<lparr>rows = rows d @
        [\<lparr>r_id = next_id d, r_title = title ev, r_start = start ev, r_end = end' ev,
          r_color = color ev, r_description = description ev, r_location = location ev\<rparr>],
      seq = next_id d\<rparr>"

text \<open>\<^verbatim>\<open>stmtUpdate.run(color, title, start, end)\<close> (lines 80, 91): every matching row.\<close>

definition stmtUpdate_run :: "event \<Rightarrow> database \<Rightarrow> database" where
  "stmtUpdate_run ev d =
     d\<lparr>rows := map (\<lambda>r. if same_key ev r then r\<lparr>r_color := color ev\<rparr> else r) (rows d)\<rparr>"

text \<open>\<^verbatim>\<open>SELECT * FROM events WHERE start >= ? AND end <= ?\<close> (line 145), bytewise.\<close>

definition db_all :: "database \<Rightarrow> string \<Rightarrow> string \<Rightarrow> row list" where
  "db_all d s e = filter (\<lambda>r. s \<le> r_start r \<and> r_end r \<le> e) (rows d)"

subsection \<open>Fetching with retries (lines 43-58)\<close>

text \<open>
  The loop of \<^verbatim>\<open>fetchWithRetries\<close> from a given attempt on. The result is the thrown
  error, the response data, or \<open>None\<close> for the \<^verbatim>\<open>undefined\<close> of a loop that never ran.
\<close>

function fetchLoop ::
  "(url \<Rightarrow> nat \<Rightarrow> string + string) \<Rightarrow> url \<Rightarrow> nat \<Rightarrow> nat \<Rightarrow> nat \<Rightarrow>
     (error + string option) \<times> effect list" where
  "fetchLoop axios_get u retries delay attempt =
     (if attempt \<le> retries then
        (case axios_get u attempt of
           Inr data \<Rightarrow> (Inr (Some data), [Fetching u attempt])
         | Inl msg \<Rightarrow>
             if attempt < retries then
               (case fetchLoop axios_get u retries delay (Suc attempt) of
                  (res, fx) \<Rightarrow>
                    (res, [Fetching u attempt, AttemptFailed attempt msg, Sleep delay] @ fx))
             else (Inl (FetchFailed u retries), [Fetching u attempt, AttemptFailed attempt msg]))
      else (Inr None, []))"
  by pat_completeness auto
termination
  by (relation "measure (\<lambda>(g, u, retries, delay, attempt). Suc retries - attempt)") auto

declare fetchLoop.simps [simp del]

text \<open>The defaults of the signature: \<^verbatim>\<open>retries = 3, delay = 10000\<close>.\<close>

definition fetchWithRetries ::
  "(url \<Rightarrow> nat \<Rightarrow> string + string) \<Rightarrow> url \<Rightarrow> (error + string option) \<times> effect list" where
  "fetchWithRetries axios_get u = fetchLoop axios_get u 3 10000 1"

subsection \<open>Normalization (lines 65-76)\<close>

text \<open>String concatenation with a value that may be \<^verbatim>\<open>null\<close>.\<close>

definition js_string :: "string option \<Rightarrow> string" where
  "js_string v = (case v of None \<Rightarrow> ''null'' | Some s \<Rightarrow> s)"

text \<open>\<^verbatim>\<open>v || ''\<close>.\<close>

definition or_empty :: "string option \<Rightarrow> string" where
  "or_empty v = (case v of None \<Rightarrow> [] | Some s \<Rightarrow> s)"

text \<open>The body of the \<^verbatim>\<open>map\<close> callback; \<^verbatim>\<open>toString\<close> of \<^verbatim>\<open>null\<close> throws.\<close>

definition normalizeVevent :: "string \<Rightarrow> vevent \<Rightarrow> error + event" where
  "normalizeVevent prefix v =
     (case startDate v of
        None \<Rightarrow> Inl TypeError
      | Some s \<Rightarrow>
          (case endDate v of
             None \<Rightarrow> Inl TypeError
           | Some e \<Rightarrow>
               Inr \<lparr>title = ''['' @ prefix @ ''] '' @ js_string (summary v),
                    start = s,
                    end' = e,
                    color = (if status v = Some ''CONFIRMED'' then ''green'' else ''red''),
                    description = or_empty (v_description v),
                    location = or_empty (v_location v)\<rparr>))"

text \<open>\<^verbatim>\<open>getAllSubcomponents('vevent').map(...)\<close>: the first throw ends the whole map.\<close>

fun normalizeAll :: "string \<Rightarrow> vevent list \<Rightarrow> error + event list" where
  "normalizeAll prefix [] = Inr []"
| "normalizeAll prefix (v # vs) =
     (case normalizeVevent prefix v of
        Inl e \<Rightarrow> Inl e
      | Inr ev \<Rightarrow>
          (case normalizeAll prefix vs of
             Inl e \<Rightarrow> Inl e
           | Inr evs \<Rightarrow> Inr (ev # evs)))"

subsection \<open>Reconciliation against the table (lines 78-108)\<close>

text \<open>
  \<^verbatim>\<open>db.get\<close> never calls back synchronously: \<^verbatim>\<open>events.forEach\<close> issues one SELECT per
  event and returns, line 105 runs, and the callbacks and the statement runs they queue
  happen later, one at a time, in an order the event loop and the database decide. Each
  event of the batch is therefore in one of four stages: its SELECT is issued; the SELECT
  has been executed and its result waits for the callback; the callback has run and queued
  a statement run; the event is done. The model keeps the order of the stages of one event
  and lets the stages of different events interleave in every way, which covers every
  order the runtime can choose. A statement run has no callback in the source; the model
  takes every run to succeed.
\<close>

datatype lookup = LookupErr | LookupRow "row option"

datatype run = RunInsert event | RunUpdate event

datatype stage =
    Issued
  | Returned lookup
  | Queued run
  | Done

datatype stmt = Prepared | Finalized

record pass =
  db :: database
  pendingOperations :: int
  stmtInsert :: stmt
  stmtUpdate :: stmt
  stages :: "stage list"
  console :: "effect list"

text \<open>
  \<^verbatim>\<open>stmtInsert.finalize(); stmtUpdate.finalize();\<close> A finalize waits in the statement's
  own queue behind the runs issued before it, so the runs still queued are executed.
\<close>

definition finalize :: "pass \<Rightarrow> pass" where
  "finalize p = p\<lparr>stmtInsert := Finalized, stmtUpdate := Finalized\<rparr>"

text \<open>The callback of \<^verbatim>\<open>db.get\<close> (lines 86-101) for event \<open>ev\<close>, given \<^verbatim>\<open>(err, row)\<close>.\<close>

definition callback :: "event \<Rightarrow> lookup \<Rightarrow> pass \<Rightarrow> stage \<times> pass" where
  "callback ev res p =
     (let (st, out) =
            (case res of
               LookupErr \<Rightarrow> (Done, DatabaseError)
             | LookupRow (Some r) \<Rightarrow> (Queued (RunUpdate ev), UpdatingExisting (title ev))
             | LookupRow None \<Rightarrow> (Queued (RunInsert ev), InsertingNew (title ev)));
          p1 = p\<lparr>console := console p @ [out], pendingOperations := pendingOperations p - 1\<rparr>
      in (st, if pendingOperations p1 = 0 then finalize p1 else p1))"

fun execute :: "run \<Rightarrow> database \<Rightarrow> database" where
  "execute (RunInsert ev) d = stmtInsert_run ev d"
| "execute (RunUpdate ev) d = stmtUpdate_run ev d"

text \<open>
  The next thing that happens for event number \<open>i\<close>: its SELECT is executed (and fails when
  \<open>fails i\<close>), its callback runs, or its queued statement run is executed.
\<close>

fun advance :: "(nat \<Rightarrow> bool) \<Rightarrow> nat \<Rightarrow> event \<Rightarrow> stage \<Rightarrow> pass \<Rightarrow> stage \<times> pass" where
  "advance fails i ev Issued p =
     (Returned (if fails i then LookupErr else LookupRow (db_get (db p) ev)), p)"
| "advance fails i ev (Returned res) p = callback ev res p"
| "advance fails i ev (Queued w) p = (Done, p\<lparr>db := execute w (db p)\<rparr>)"
| "advance fails i ev Done p = (Done, p)"

text \<open>
  One turn of the event loop for event number \<open>i\<close>. A turn for an event that is done, or
  for no event of the batch, does nothing.
\<close>

definition turn :: "(nat \<Rightarrow> bool) \<Rightarrow> event list \<Rightarrow> nat \<Rightarrow> pass \<Rightarrow> pass" where
  "turn fails evs i p =
     (if i < length evs \<and> i < length (stages p) then
        (case advance fails i (evs ! i) (stages p ! i) p of
           (st, p1) \<Rightarrow> p1\<lparr>stages := (stages p1)[i := st]\<rparr>)
      else p)"

text \<open>The event loop: a schedule names, turn by turn, the event whose next stage happens.\<close>

fun eventLoop :: "(nat \<Rightarrow> bool) \<Rightarrow> event list \<Rightarrow> nat list \<Rightarrow> pass \<Rightarrow> pass" where
  "eventLoop fails evs [] p = p"
| "eventLoop fails evs (i # sched) p = eventLoop fails evs sched (turn fails evs i p)"

text \<open>Lines 78-108: the synchronous part, then whatever the schedule lets happen.\<close>

definition reconcile :: "(nat \<Rightarrow> bool) \<Rightarrow> nat list \<Rightarrow> event list \<Rightarrow> database \<Rightarrow> pass" where
  "reconcile fails sched evs d =
     (let p0 = \<lparr>db = d, pendingOperations = int (length evs),
                stmtInsert = Prepared, stmtUpdate = Prepared,
                stages = replicate (length evs) Issued, console = []\<rparr>;
          p1 = (if pendingOperations p0 = 0 then finalize p0 else p0)
      in eventLoop fails evs sched p1)"

text \<open>Every callback has run and every queued statement run has been executed.\<close>

definition settled :: "pass \<Rightarrow> bool" where
  "settled p = list_all (\<lambda>st. st = Done) (stages p)"

subsection \<open>One ingestion pass (lines 60-112)\<close>

text \<open>
  Either the \<^verbatim>\<open>catch\<close> at line 109 ran, with the table as it was, or the reconciliation was
  started. \<^verbatim>\<open>ICAL.parse(undefined)\<close> throws a TypeError.
\<close>

datatype ingestion =
    Caught error database "effect list"
  | Reconciling pass

definition fetchAndStoreEvents ::
  "(url \<Rightarrow> nat \<Rightarrow> string + string) \<Rightarrow> (string \<Rightarrow> error + vevent list) \<Rightarrow>
     (nat \<Rightarrow> bool) \<Rightarrow> nat list \<Rightarrow> url \<Rightarrow> string \<Rightarrow> database \<Rightarrow> ingestion" where
  "fetchAndStoreEvents axios_get ICAL_parse fails sched u prefix d =
     (case fetchWithRetries axios_get u of
        (Inl e, fx) \<Rightarrow> Caught e d (fx @ [ErrorFetchingAndStoring e])
      | (Inr None, fx) \<Rightarrow> Caught TypeError d (fx @ [ErrorFetchingAndStoring TypeError])
      | (Inr (Some icsData), fx) \<Rightarrow>
          (case ICAL_parse icsData of
             Inl e \<Rightarrow> Caught e d (fx @ [ErrorFetchingAndStoring e])
           | Inr vevents \<Rightarrow>
               (case normalizeAll prefix vevents of
                  Inl e \<Rightarrow> Caught e d (fx @ [ErrorFetchingAndStoring e])
                | Inr events \<Rightarrow>
                    (let p = reconcile fails sched events d
                     in Reconciling (p\<lparr>console := fx @ console p\<rparr>)))))"

text \<open>The table and the console output an ingestion pass leaves behind.\<close>

fun stored :: "ingestion \<Rightarrow> database" where
  "stored (Caught e d fx) = d"
| "stored (Reconciling p) = db p"

fun printed :: "ingestion \<Rightarrow> effect list" where
  "printed (Caught e d fx) = fx"
| "printed (Reconciling p) = console p"

subsection \<open>The result cache (node-cache with \<^verbatim>\<open>stdTTL: 600\<close>, line 12)\<close>

type_synonym cache = "string \<Rightarrow> (row list \<times> nat) option"

definition stdTTL :: nat where
  "stdTTL = 600"

text \<open>
  \<^verbatim>\<open>cache.get(key)\<close> at clock value \<open>now\<close>: an entry whose expiry instant lies before
  \<open>now\<close> is deleted and reported absent.
\<close>

definition cache_get :: "nat \<Rightarrow> string \<Rightarrow> cache \<Rightarrow> row list option \<times> cache" where
  "cache_get now k c =
     (case c k of
        None \<Rightarrow> (None, c)
      | Some (v, t) \<Rightarrow> if t \<noteq> 0 \<and> t < now then (None, c(k := None)) else (Some v, c))"

text \<open>\<^verbatim>\<open>cache.set(key, value)\<close> at clock value \<open>now\<close>: the entry lives \<open>stdTTL\<close> seconds.\<close>

definition cache_set :: "nat \<Rightarrow> string \<Rightarrow> row list \<Rightarrow> cache \<Rightarrow> cache" where
  "cache_set now k v c = c(k \<mapsto> (v, now + stdTTL * 1000))"

subsection \<open>The read endpoint (lines 128-157)\<close>

datatype body = JsonError string | JsonRows "row list" | Text string

record response =
  code :: nat
  body :: body

record server =
  store :: database
  cache :: cache

text \<open>Line 132.\<close>

definition badRequest :: "server \<Rightarrow> response \<times> server \<times> effect list" where
  "badRequest sv =
     (\<lparr>code = 400, body = JsonError ''Start and end query parameters are required''\<rparr>, sv, [])"

text \<open>
  Lines 135-156 for two non-empty bounds. \<open>now\<close> is the clock when the request arrives,
  \<open>later\<close> the clock when the callback of \<^verbatim>\<open>db.all\<close> runs, \<open>err\<close> whether the database
  reports an error to that callback. A stored array is truthy, also when it is empty.
\<close>

definition rangeQuery ::
  "string \<Rightarrow> string \<Rightarrow> nat \<Rightarrow> nat \<Rightarrow> bool \<Rightarrow> server \<Rightarrow> response \<times> server \<times> effect list" where
  "rangeQuery s e now later err sv =
     (let cacheKey = s @ ''_'' @ e in
      case cache_get now cacheKey (cache sv) of
        (Some cachedData, c1) \<Rightarrow>
          (\<lparr>code = 200, body = JsonRows cachedData\<rparr>, sv\<lparr>cache := c1\<rparr>,
           [CacheGet cacheKey, ReturningCached s e])
      | (None, c1) \<Rightarrow>
          if err then
            (\<lparr>code = 500, body = Text ''Failed to fetch events''\<rparr>, sv\<lparr>cache := c1\<rparr>,
             [CacheGet cacheKey, FetchingPeriod s e, DbAll s e, DatabaseError])
          else
            (let rs = db_all (store sv) s e in
             (\<lparr>code = 200, body = JsonRows rs\<rparr>, sv\<lparr>cache := cache_set later cacheKey rs c1\<rparr>,
              [CacheGet cacheKey, FetchingPeriod s e, DbAll s e, CacheSet cacheKey])))"

text \<open>
  The handler. A query parameter is absent (\<open>None\<close>) or a string (a repeated or nested
  parameter, which the framework delivers as an array or an object, is not modelled);
  \<^verbatim>\<open>!start\<close> holds of an absent parameter and of the empty string.
\<close>

definition events_json ::
  "string option \<Rightarrow> string option \<Rightarrow> nat \<Rightarrow> nat \<Rightarrow> bool \<Rightarrow> server \<Rightarrow>
     response \<times> server \<times> effect list" where
  "events_json qstart qend now later err sv =
     (case (qstart, qend) of
        (Some s, Some e) \<Rightarrow>
          if s = [] \<or> e = [] then badRequest sv else rangeQuery s e now later err sv
      | _ \<Rightarrow> badRequest sv)"

subsection \<open>The running server\<close>

text \<open>
  One request to the read endpoint, or one ingestion pass that runs alone, under a given
  schedule, on the table of the server. An ingestion pass has no access to the cache; the
  table is the only state the two share.
\<close>

datatype occurrence =
    Ingest "url \<Rightarrow> nat \<Rightarrow> string + string" "string \<Rightarrow> error + vevent list"
           "nat \<Rightarrow> bool" "nat list" url string
  | Request "string option" "string option" nat nat bool

fun serve :: "occurrence \<Rightarrow> server \<Rightarrow> server" where
  "serve (Ingest axios_get ICAL_parse fails sched u prefix) sv =
     sv\<lparr>store := stored (fetchAndStoreEvents axios_get ICAL_parse fails sched u prefix (store sv))\<rparr>"
| "serve (Request qstart qend now later err) sv =
     fst (snd (events_json qstart qend now later err sv))"

subsection \<open>Passes in flight (lines 114-125)\<close>

text \<open>
  Nothing waits for the database work of a pass: \<^verbatim>\<open>fetchAndStoreEvents\<close> resolves when
  \<^verbatim>\<open>forEach\<close> has issued the SELECTs, the startup code awaits no more than that, and
  \<^verbatim>\<open>setInterval\<close> starts a pass for each source every minute without awaiting either. The
  turns of several passes, of the same source or not, and the requests therefore
  interleave on the one table.

  The synchronous part of a pass (lines 62-108): the batch and the pass with every SELECT
  issued, or nothing when the \<^verbatim>\<open>catch\<close> ran.
\<close>

definition beginPass ::
  "(url \<Rightarrow> nat \<Rightarrow> string + string) \<Rightarrow> (string \<Rightarrow> error + vevent list) \<Rightarrow>
     url \<Rightarrow> string \<Rightarrow> database \<Rightarrow> (event list \<times> pass) option" where
  "beginPass axios_get ICAL_parse u prefix d =
     (case fetchWithRetries axios_get u of
        (Inl e, fx) \<Rightarrow> None
      | (Inr None, fx) \<Rightarrow> None
      | (Inr (Some icsData), fx) \<Rightarrow>
          (case ICAL_parse icsData of
             Inl e \<Rightarrow> None
           | Inr vevents \<Rightarrow>
               (case normalizeAll prefix vevents of
                  Inl e \<Rightarrow> None
                | Inr events \<Rightarrow>
                    (let p = reconcile (\<lambda>i. False) [] events d
                     in Some (events, p\<lparr>console := fx @ console p\<rparr>)))))"

text \<open>
  The process: the server state and the passes in flight, each with its batch. The \<open>db\<close>
  field of a pass in flight is the table as its latest turn left it; a turn works on the
  table of the server.
\<close>

record process =
  shared :: server
  inflight :: "(event list \<times> pass) list"

text \<open>
  What happens next: a pass is started, the next stage of event \<open>i\<close> of pass \<open>k\<close> happens
  (its SELECT failing when the flag is set), or a request arrives.
\<close>

datatype happening =
    Start "url \<Rightarrow> nat \<Rightarrow> string + string" "string \<Rightarrow> error + vevent list" url string
  | Turn nat nat bool
  | Arrive "string option" "string option" nat nat bool

fun happen :: "happening \<Rightarrow> process \<Rightarrow> process" where
  "happen (Start axios_get ICAL_parse u prefix) ps =
     (case beginPass axios_get ICAL_parse u prefix (store (shared ps)) of
        None \<Rightarrow> ps
      | Some started \<Rightarrow> ps\<lparr>inflight := inflight ps @ [started]\<rparr>)"
| "happen (Turn k i f) ps =
     (if k < length (inflight ps) then
        (case inflight ps ! k of
           (evs, p) \<Rightarrow>
             (let q = turn (\<lambda>j. f) evs i (p\<lparr>db := store (shared ps)\<rparr>)
              in ps\<lparr>shared := (shared ps)\<lparr>store := db q\<rparr>,
                    inflight := (inflight ps)[k := (evs, q)]\<rparr>))
      else ps)"
| "happen (Arrive qstart qend now later err) ps =
     ps\<lparr>shared := fst (snd (events_json qstart qend now later err (shared ps)))\<rparr>"

fun happenAll :: "happening list \<Rightarrow> process \<Rightarrow> process" where
  "happenAll [] ps = ps"
| "happenAll (h # hs) ps = happenAll hs (happen h ps)"

subsection \<open>Notions for the statements and the invariants of the event loop\<close>

text \<open>The identity key of an event and of a row.\<close>

definition key :: "event \<Rightarrow> string \<times> string \<times> string" where
  "key ev = (title ev, start ev, end' ev)"

definition row_key :: "row \<Rightarrow> string \<times> string \<times> string" where
  "row_key r = (r_title r, r_start r, r_end r)"

text \<open>At most one row per identity key.\<close>

definition one_per_key :: "database \<Rightarrow> bool" where
  "one_per_key d = distinct (map row_key (rows d))"

text \<open>Every row with the key of \<open>ev\<close> has the color of \<open>ev\<close>.\<close>

definition colored :: "event \<Rightarrow> database \<Rightarrow> bool" where
  "colored ev d = (\<forall>r \<in> set (rows d). same_key ev r \<longrightarrow> r_color r = color ev)"

text \<open>Two rows that differ at most in the color.\<close>

definition unchanged_but_color :: "row \<Rightarrow> row \<Rightarrow> bool" where
  "unchanged_but_color r r' = (r' = r\<lparr>r_color := r_color r'\<rparr>)"

text \<open>
  \<open>kept d d'\<close>: every row of \<open>d\<close> is still in \<open>d'\<close>, at its place, changed at most
  in its color. \<open>grown evs d d'\<close> says more: a changed color is the color of an event of
  the batch with the key of the row, and every row that \<open>d'\<close> has beyond those of \<open>d\<close>
  carries the key of an event of the batch that had no row in \<open>d\<close>.
\<close>

definition kept :: "database \<Rightarrow> database \<Rightarrow> bool" where
  "kept d d' =
     (length (rows d) \<le> length (rows d') \<and>
      (\<forall>k < length (rows d). unchanged_but_color (rows d ! k) (rows d' ! k)))"

definition grown :: "event list \<Rightarrow> database \<Rightarrow> database \<Rightarrow> bool" where
  "grown evs d d' =
     (length (rows d) \<le> length (rows d') \<and>
      (\<forall>k < length (rows d).
         unchanged_but_color (rows d ! k) (rows d' ! k) \<and>
         (r_color (rows d' ! k) = r_color (rows d ! k) \<or>
          (\<exists>ev \<in> set evs. same_key ev (rows d ! k) \<and> r_color (rows d' ! k) = color ev))) \<and>
      (\<forall>r' \<in> set (drop (length (rows d)) (rows d')).
         \<exists>ev \<in> set evs. db_get d ev = None \<and> same_key ev r'))"

text \<open>The stage that follows a stage, as \<open>advance\<close> and \<open>callback\<close> compute it.\<close>

fun next_stage :: "(nat \<Rightarrow> bool) \<Rightarrow> nat \<Rightarrow> event \<Rightarrow> database \<Rightarrow> stage \<Rightarrow> stage" where
  "next_stage fails i ev d Issued = Returned (if fails i then LookupErr else LookupRow (db_get d ev))"
| "next_stage fails i ev d (Returned LookupErr) = Done"
| "next_stage fails i ev d (Returned (LookupRow None)) = Queued (RunInsert ev)"
| "next_stage fails i ev d (Returned (LookupRow (Some r))) = Queued (RunUpdate ev)"
| "next_stage fails i ev d (Queued w) = Done"
| "next_stage fails i ev d Done = Done"

text \<open>
  What the invariants say of one stage: a queued run is a run for the event itself, and an
  insert is only on its way for an event that had no row when the pass began (\<open>stage_ok\<close>);
  without lookup failures no error is ever returned (\<open>wellformed\<close>); the lookup found no
  row or the event is done (\<open>decided\<close>); an insert is on its way (\<open>pending_insert\<close>);
  the lookup found a row or the event is done (\<open>found\<close>).
\<close>

fun stage_ok :: "database \<Rightarrow> event \<Rightarrow> stage \<Rightarrow> bool" where
  "stage_ok d ev (Returned (LookupRow None)) = (db_get d ev = None)"
| "stage_ok d ev (Queued w) = (w = RunUpdate ev \<or> (w = RunInsert ev \<and> db_get d ev = None))"
| "stage_ok d ev st = True"

fun run_ok :: "event \<Rightarrow> stage \<Rightarrow> bool" where
  "run_ok ev (Queued w) = (w = RunInsert ev \<or> w = RunUpdate ev)"
| "run_ok ev st = True"

fun wellformed :: "event \<Rightarrow> stage \<Rightarrow> bool" where
  "wellformed ev (Returned LookupErr) = False"
| "wellformed ev (Queued w) = (w = RunInsert ev \<or> w = RunUpdate ev)"
| "wellformed ev st = True"

fun decided :: "stage \<Rightarrow> bool" where
  "decided (Returned (LookupRow None)) = True"
| "decided (Queued (RunInsert e)) = True"
| "decided Done = True"
| "decided st = False"

fun pending_insert :: "stage \<Rightarrow> bool" where
  "pending_insert (Returned (LookupRow None)) = True"
| "pending_insert (Queued (RunInsert e)) = True"
| "pending_insert st = False"

fun found :: "stage \<Rightarrow> bool" where
  "found (Returned (LookupRow (Some r))) = True"
| "found (Queued (RunUpdate e)) = True"
| "found Done = True"
| "found st = False"

text \<open>How far an event has come: a turn moves it on by at least one, up to three.\<close>

fun rank :: "stage \<Rightarrow> nat" where
  "rank Issued = 0"
| "rank (Returned res) = 1"
| "rank (Queued w) = 2"
| "rank Done = 3"

text \<open>The invariants of the event loop behind the theorems on colors, keys and presence.\<close>

definition settling :: "(nat \<Rightarrow> bool) \<Rightarrow> event list \<Rightarrow> event \<Rightarrow> pass \<Rightarrow> bool" where
  "settling fails evs ev p =
     ((\<forall>i < length evs. i < length (stages p) \<longrightarrow> wellformed (evs ! i) (stages p ! i)) \<and>
      ((\<exists>i < length evs. i < length (stages p) \<and> key (evs ! i) = key ev \<and> decided (stages p ! i))
         \<longrightarrow> colored ev (db p)))"

definition deduplicating :: "event list \<Rightarrow> pass \<Rightarrow> bool" where
  "deduplicating evs p =
     (one_per_key (db p) \<and>
      (\<forall>i < length evs. i < length (stages p) \<longrightarrow>
         run_ok (evs ! i) (stages p ! i) \<and>
         (pending_insert (stages p ! i) \<longrightarrow> db_get (db p) (evs ! i) = None)))"

definition storing :: "event list \<Rightarrow> pass \<Rightarrow> bool" where
  "storing evs p =
     (\<forall>i < length evs. i < length (stages p) \<longrightarrow>
         wellformed (evs ! i) (stages p ! i) \<and>
         (found (stages p ! i) \<longrightarrow> db_get (db p) (evs ! i) \<noteq> None))"

section \<open>Properties\<close>

subsection \<open>Normalization\<close>

lemma normalizeVevent_Inr:
  "normalizeVevent prefix v = Inr ev \<Longrightarrow>
     startDate v = Some (start ev) \<and> endDate v = Some (end' ev) \<and>
     title ev = ''['' @ prefix @ ''] '' @ js_string (summary v) \<and>
     color ev = (if status v = Some ''CONFIRMED'' then ''green'' else ''red'') \<and>
     description ev = or_empty (v_description v) \<and>
     location ev = or_empty (v_location v)"
  by (auto simp: normalizeVevent_def split: option.splits)

lemma normalizeAll_Inr:
  "normalizeAll prefix vs = Inr evs \<Longrightarrow>
     length evs = length vs \<and>
     (\<forall>i < length vs. normalizeVevent prefix (vs ! i) = Inr (evs ! i))"
proof (induction vs arbitrary: evs)
  case Nil
  then show ?case by simp
next
  case (Cons v vs)
  from Cons.prems obtain ev evs' where
    a: "normalizeVevent prefix v = Inr ev" and
    b: "normalizeAll prefix vs = Inr evs'" and
    c: "evs = ev # evs'"
    by (auto split: sum.splits)
  from Cons.IH [OF b] have ih: "length evs' = length vs"
    "\<forall>i < length vs. normalizeVevent prefix (vs ! i) = Inr (evs' ! i)" by auto
  show ?case using a c ih by (auto simp: nth_Cons split: nat.splits)
qed

lemma normalizeAll_total:
  "\<forall>v \<in> set vs. startDate v \<noteq> None \<and> endDate v \<noteq> None \<Longrightarrow>
     \<exists>evs. normalizeAll prefix vs = Inr evs"
  by (induction vs) (auto simp: normalizeVevent_def split: option.splits sum.splits)

text \<open>
  C5. When every component of the feed has a start and an end instant, normalization yields
  one record per component, in order, and for each of them: the title is \<open>[prefix]\<close>, a
  space and the summary (\<open>null\<close> printed for an absent summary, as string concatenation
  does); the color is green exactly when the status is \<open>CONFIRMED\<close> and red in every other
  case, an absent status included; description and location are the upstream values, or
  the empty string when absent.
\<close>

theorem normalization_fields:
  assumes "\<forall>v \<in> set vs. startDate v \<noteq> None \<and> endDate v \<noteq> None"
  shows "\<exists>evs. normalizeAll prefix vs = Inr evs \<and> length evs = length vs \<and>
           (\<forall>i < length vs.
              title (evs ! i) =
                ''['' @ prefix @ ''] '' @
                  (case summary (vs ! i) of Some s \<Rightarrow> s | None \<Rightarrow> ''null'') \<and>
              (color (evs ! i) = ''green'' \<longleftrightarrow> status (vs ! i) = Some ''CONFIRMED'') \<and>
              (color (evs ! i) = ''red'' \<longleftrightarrow> status (vs ! i) \<noteq> Some ''CONFIRMED'') \<and>
              description (evs ! i) =
                (case v_description (vs ! i) of Some s \<Rightarrow> s | None \<Rightarrow> []) \<and>
              location (evs ! i) =
                (case v_location (vs ! i) of Some s \<Rightarrow> s | None \<Rightarrow> []))"
proof -
  from normalizeAll_total [OF assms] obtain evs where evs: "normalizeAll prefix vs = Inr evs"
    by blast
  note all = normalizeAll_Inr [OF evs]
  have "title (evs ! i) =
          ''['' @ prefix @ ''] '' @ (case summary (vs ! i) of Some s \<Rightarrow> s | None \<Rightarrow> ''null'') \<and>
        (color (evs ! i) = ''green'' \<longleftrightarrow> status (vs ! i) = Some ''CONFIRMED'') \<and>
        (color (evs ! i) = ''red'' \<longleftrightarrow> status (vs ! i) \<noteq> Some ''CONFIRMED'') \<and>
        description (evs ! i) = (case v_description (vs ! i) of Some s \<Rightarrow> s | None \<Rightarrow> []) \<and>
        location (evs ! i) = (case v_location (vs ! i) of Some s \<Rightarrow> s | None \<Rightarrow> [])"
    if "i < length vs" for i
  proof -
    from all that have "normalizeVevent prefix (vs ! i) = Inr (evs ! i)" by blast
    from normalizeVevent_Inr [OF this] show ?thesis
      by (simp add: js_string_def or_empty_def)
  qed
  with evs all show ?thesis by blast
qed

theorem normalization_fields_witness:
  "normalizeAll ''Sonarr''
     [\<lparr>summary = Some ''Show - 1x01'', startDate = Some ''2024-01-01T10:00:00'',
       endDate = Some ''2024-01-01T11:00:00'', status = Some ''CONFIRMED'',
       v_description = None, v_location = Some ''HBO''\<rparr>,
      \<lparr>summary = Some ''Show - 1x02'', startDate = Some ''2024-01-08T10:00:00'',
       endDate = Some ''2024-01-08T11:00:00'', status = None,
       v_description = Some ''Pilot'', v_location = None\<rparr>] =
   Inr [\<lparr>title = ''[Sonarr] Show - 1x01'', start = ''2024-01-01T10:00:00'',
         end' = ''2024-01-01T11:00:00'', color = ''green'',
         description = [], location = ''HBO''\<rparr>,
        \<lparr>title = ''[Sonarr] Show - 1x02'', start = ''2024-01-08T10:00:00'',
         end' = ''2024-01-08T11:00:00'', color = ''red'',
         description = ''Pilot'', location = []\<rparr>]"
  using normalization_fields
    [of "[\<lparr>summary = Some ''Show - 1x01'', startDate = Some ''2024-01-01T10:00:00'',
           endDate = Some ''2024-01-01T11:00:00'', status = Some ''CONFIRMED'',
           v_description = None, v_location = Some ''HBO''\<rparr>,
          \<lparr>summary = Some ''Show - 1x02'', startDate = Some ''2024-01-08T10:00:00'',
           endDate = Some ''2024-01-08T11:00:00'', status = None,
           v_description = Some ''Pilot'', v_location = None\<rparr>]" "''Sonarr''"]
  by (simp add: normalizeVevent_def js_string_def or_empty_def)

subsection \<open>The read endpoint\<close>

lemma cache_get_live:
  "c k = Some (v, t) \<Longrightarrow> now \<le> t \<Longrightarrow> cache_get now k c = (Some v, c)"
  by (simp add: cache_get_def)

lemma rangeQuery_ok_entry:
  assumes "rangeQuery s e t1 later1 err1 sv1 = (\<lparr>code = 200, body = b\<rparr>, sv1', fx1)"
  shows "\<exists>v t. cache sv1' (s @ ''_'' @ e) = Some (v, t) \<and> b = JsonRows v \<and>
           (DbAll s e \<in> set fx1 \<longrightarrow> t = later1 + 600 * 1000)"
  using assms
  by (auto simp: rangeQuery_def Let_def cache_get_def cache_set_def stdTTL_def
           split: prod.splits option.splits if_splits)

lemma store_events_json: "store (fst (snd (events_json qstart qend now later err sv))) = store sv"
  by (auto simp: events_json_def badRequest_def rangeQuery_def Let_def
           split: option.splits prod.splits)

text \<open>
  C7. A request that omits \<open>start\<close> or \<open>end\<close> (or gives either an empty value) is answered
  with status 400 and the body \<open>{error: "Start and end query parameters are required"}\<close>;
  the table and the cache are as they were and nothing was read or written: the handler
  has no effect at all.
\<close>

theorem missing_parameter_rejected:
  assumes "qstart = None \<or> qend = None \<or> qstart = Some [] \<or> qend = Some []"
  shows "events_json qstart qend now later err sv =
           (\<lparr>code = 400, body = JsonError ''Start and end query parameters are required''\<rparr>,
            sv, [])"
  using assms by (auto simp: events_json_def badRequest_def split: option.splits)

theorem missing_parameter_rejected_witness:
  "events_json (Some ''2024-01-01T00:00'') None 5 7 False
     \<lparr>store = \<lparr>rows = [], seq = 0\<rparr>, cache = Map.empty\<rparr> =
   (\<lparr>code = 400, body = JsonError ''Start and end query parameters are required''\<rparr>,
    \<lparr>store = \<lparr>rows = [], seq = 0\<rparr>, cache = Map.empty\<rparr>, [])"
  using missing_parameter_rejected [of "Some ''2024-01-01T00:00''" None 5 7 False
      "\<lparr>store = \<lparr>rows = [], seq = 0\<rparr>, cache = Map.empty\<rparr>"]
  by simp

text \<open>
  C3. A request with two non-empty bounds for which the cache holds no live entry under its
  key, and whose table scan succeeds, is answered with status 200 and exactly the stored
  rows with \<open>start \<ge> rangeStart\<close> and \<open>end \<le> rangeEnd\<close> in the bytewise lexicographic
  order of strings, in table order.
\<close>

theorem range_query_on_miss:
  assumes "s \<noteq> []" and "e \<noteq> []"
    and "fst (cache_get now (s @ ''_'' @ e) (cache sv)) = None"
  shows "fst (events_json (Some s) (Some e) now later False sv) =
           \<lparr>code = 200,
            body = JsonRows (filter (\<lambda>r. s \<le> r_start r \<and> r_end r \<le> e) (rows (store sv)))\<rparr>"
  using assms
  by (auto simp: events_json_def rangeQuery_def db_all_def Let_def
           split: prod.splits option.splits)

text \<open>
  The example of the specification: the event from 10:00 to 11:00 is returned for the whole
  day and left out when the range ends at 09:00.
\<close>

theorem range_query_on_miss_witness:
  "fst (events_json (Some ''2024-01-01T00:00'') (Some ''2024-01-01T23:59'') 5 7 False
     \<lparr>store = \<lparr>rows = [\<lparr>r_id = 1, r_title = ''[Sonarr] Show - 1x01'',
                          r_start = ''2024-01-01T10:00'', r_end = ''2024-01-01T11:00'',
                          r_color = ''green'', r_description = [], r_location = []\<rparr>],
               seq = 1\<rparr>,
      cache = Map.empty\<rparr>) =
   \<lparr>code = 200,
    body = JsonRows [\<lparr>r_id = 1, r_title = ''[Sonarr] Show - 1x01'',
                      r_start = ''2024-01-01T10:00'', r_end = ''2024-01-01T11:00'',
                      r_color = ''green'', r_description = [], r_location = []\<rparr>]\<rparr> \<and>
   fst (events_json (Some ''2024-01-01T00:00'') (Some ''2024-01-01T09:00'') 5 7 False
     \<lparr>store = \<lparr>rows = [\<lparr>r_id = 1, r_title = ''[Sonarr] Show - 1x01'',
                          r_start = ''2024-01-01T10:00'', r_end = ''2024-01-01T11:00'',
                          r_color = ''green'', r_description = [], r_location = []\<rparr>],
               seq = 1\<rparr>,
      cache = Map.empty\<rparr>) =
   \<lparr>code = 200, body = JsonRows []\<rparr>"
  using
    range_query_on_miss [of "''2024-01-01T00:00''" "''2024-01-01T23:59''" 5
      "\<lparr>store = \<lparr>rows = [\<lparr>r_id = 1, r_title = ''[Sonarr] Show - 1x01'',
                          r_start = ''2024-01-01T10:00'', r_end = ''2024-01-01T11:00'',
                          r_color = ''green'', r_description = [], r_location = []\<rparr>],
               seq = 1\<rparr>,
         cache = Map.empty\<rparr>" 7]
    range_query_on_miss [of "''2024-01-01T00:00''" "''2024-01-01T09:00''" 5
      "\<lparr>store = \<lparr>rows = [\<lparr>r_id = 1, r_title = ''[Sonarr] Show - 1x01'',
                          r_start = ''2024-01-01T10:00'', r_end = ''2024-01-01T11:00'',
                          r_color = ''green'', r_description = [], r_location = []\<rparr>],
               seq = 1\<rparr>,
         cache = Map.empty\<rparr>" 7]
  by (simp add: cache_get_def)

text \<open>
  C4. After a request that was answered with status 200, the cache holds an entry under the
  key of the range, with the answered rows; when the request read the table, the entry
  expires 600 seconds after the rows were stored. As long as that entry is there and
  its expiry instant has not passed, every request for the same two bounds gets the same
  answer, whatever the table now holds and whether or not the database would fail: the
  handler reads the cache, prints one line, and neither reads the table nor changes the
  server state.
\<close>

theorem repeated_query_served_from_cache:
  assumes "s \<noteq> []" and "e \<noteq> []"
    and "events_json (Some s) (Some e) t1 later1 err1 sv1 =
           (\<lparr>code = 200, body = b\<rparr>, sv1', fx1)"
  shows "\<exists>v t. cache sv1' (s @ ''_'' @ e) = Some (v, t) \<and> b = JsonRows v \<and>
           (DbAll s e \<in> set fx1 \<longrightarrow> t = later1 + 600 * 1000) \<and>
           (\<forall>sv2 t2 later2 err2.
              cache sv2 (s @ ''_'' @ e) = Some (v, t) \<and> t2 \<le> t \<longrightarrow>
              events_json (Some s) (Some e) t2 later2 err2 sv2 =
                (\<lparr>code = 200, body = b\<rparr>, sv2,
                 [CacheGet (s @ ''_'' @ e), ReturningCached s e]))"
proof -
  from assms have rq:
    "rangeQuery s e t1 later1 err1 sv1 = (\<lparr>code = 200, body = b\<rparr>, sv1', fx1)"
    by (simp add: events_json_def)
  from rangeQuery_ok_entry [OF rq] obtain v t where
    vt: "cache sv1' (s @ ''_'' @ e) = Some (v, t)" "b = JsonRows v"
        "DbAll s e \<in> set fx1 \<longrightarrow> t = later1 + 600 * 1000" by blast
  have "events_json (Some s) (Some e) t2 later2 err2 sv2 =
          (\<lparr>code = 200, body = b\<rparr>, sv2, [CacheGet (s @ ''_'' @ e), ReturningCached s e])"
    if "cache sv2 (s @ ''_'' @ e) = Some (v, t)" "t2 \<le> t" for sv2 t2 later2 err2
    using that assms(1,2) vt(2)
    by (simp add: events_json_def rangeQuery_def cache_get_live)
  with vt show ?thesis by blast
qed

text \<open>
  A request at 1000 ms stores its rows at 1005 ms; at 601005 ms, with a second row in the
  table and a failing database, the same request is still answered from the cache.
\<close>

theorem repeated_query_served_from_cache_witness:
  "events_json (Some ''2024-01-01T00:00'') (Some ''2024-01-01T23:59'') 601005 601010 True
     \<lparr>store = \<lparr>rows = [\<lparr>r_id = 1, r_title = ''[Sonarr] Show - 1x01'',
                          r_start = ''2024-01-01T10:00'', r_end = ''2024-01-01T11:00'',
                          r_color = ''green'', r_description = [], r_location = []\<rparr>,
                        \<lparr>r_id = 2, r_title = ''[Radarr] Film'',
                          r_start = ''2024-01-01T12:00'', r_end = ''2024-01-01T13:00'',
                          r_color = ''red'', r_description = [], r_location = []\<rparr>],
               seq = 2\<rparr>,
      cache = cache (fst (snd
        (events_json (Some ''2024-01-01T00:00'') (Some ''2024-01-01T23:59'') 1000 1005 False
           \<lparr>store = \<lparr>rows = [\<lparr>r_id = 1, r_title = ''[Sonarr] Show - 1x01'',
                                r_start = ''2024-01-01T10:00'', r_end = ''2024-01-01T11:00'',
                                r_color = ''green'', r_description = [], r_location = []\<rparr>],
                     seq = 1\<rparr>,
            cache = Map.empty\<rparr>)))\<rparr> =
   (\<lparr>code = 200,
     body = JsonRows [\<lparr>r_id = 1, r_title = ''[Sonarr] Show - 1x01'',
                       r_start = ''2024-01-01T10:00'', r_end = ''2024-01-01T11:00'',
                       r_color = ''green'', r_description = [], r_location = []\<rparr>]\<rparr>,
    \<lparr>store = \<lparr>rows = [\<lparr>r_id = 1, r_title = ''[Sonarr] Show - 1x01'',
                          r_start = ''2024-01-01T10:00'', r_end = ''2024-01-01T11:00'',
                          r_color = ''green'', r_description = [], r_location = []\<rparr>,
                        \<lparr>r_id = 2, r_title = ''[Radarr] Film'',
                          r_start = ''2024-01-01T12:00'', r_end = ''2024-01-01T13:00'',
                          r_color = ''red'', r_description = [], r_location = []\<rparr>],
               seq = 2\<rparr>,
      cache = cache (fst (snd
        (events_json (Some ''2024-01-01T00:00'') (Some ''2024-01-01T23:59'') 1000 1005 False
           \<lparr>store = \<lparr>rows = [\<lparr>r_id = 1, r_title = ''[Sonarr] Show - 1x01'',
                                r_start = ''2024-01-01T10:00'', r_end = ''2024-01-01T11:00'',
                                r_color = ''green'', r_description = [], r_location = []\<rparr>],
                     seq = 1\<rparr>,
            cache = Map.empty\<rparr>)))\<rparr>,
    [CacheGet ''2024-01-01T00:00_2024-01-01T23:59'',
     ReturningCached ''2024-01-01T00:00'' ''2024-01-01T23:59''])"
proof -
  let ?s = "''2024-01-01T00:00''" and ?e = "''2024-01-01T23:59''"
  let ?r1 = "\<lparr>r_id = 1, r_title = ''[Sonarr] Show - 1x01'',
               r_start = ''2024-01-01T10:00'', r_end = ''2024-01-01T11:00'',
               r_color = ''green'', r_description = [], r_location = []\<rparr>"
  let ?sv1 = "\<lparr>store = \<lparr>rows = [?r1], seq = 1\<rparr>, cache = Map.empty\<rparr>"
  let ?first = "events_json (Some ?s) (Some ?e) 1000 1005 False ?sv1"
  have first: "?first =
      (\<lparr>code = 200, body = JsonRows [?r1]\<rparr>, fst (snd ?first), snd (snd ?first))"
    by (simp add: events_json_def rangeQuery_def cache_get_def db_all_def Let_def)
  have entry: "cache (fst (snd ?first)) (?s @ ''_'' @ ?e) = Some ([?r1], 601005)"
    by (simp add: events_json_def rangeQuery_def cache_get_def cache_set_def db_all_def stdTTL_def Let_def)
  from repeated_query_served_from_cache [OF _ _ first]
  obtain v t where vt: "cache (fst (snd ?first)) (?s @ ''_'' @ ?e) = Some (v, t)"
    and rest: "\<forall>sv2 t2 later2 err2.
              cache sv2 (?s @ ''_'' @ ?e) = Some (v, t) \<and> t2 \<le> t \<longrightarrow>
              events_json (Some ?s) (Some ?e) t2 later2 err2 sv2 =
                (\<lparr>code = 200, body = JsonRows [?r1]\<rparr>, sv2,
                 [CacheGet (?s @ ''_'' @ ?e), ReturningCached ?s ?e])"
    by auto
  from vt entry have "v = [?r1]" "t = 601005" by simp_all
  with rest entry show ?thesis by simp
qed

subsection \<open>Fetching\<close>

lemma fetchWithRetries_first:
  assumes "axios_get u 1 = Inr data"
  shows "fetchWithRetries axios_get u = (Inr (Some data), [Fetching u 1])"
  unfolding fetchWithRetries_def using assms by (subst fetchLoop.simps) simp

lemma fetchWithRetries_second:
  assumes "axios_get u 1 = Inl m1" and "axios_get u 2 = Inr data"
  shows "fetchWithRetries axios_get u =
           (Inr (Some data), [Fetching u 1, AttemptFailed 1 m1, Sleep 10000, Fetching u 2])"
proof -
  have 2: "fetchLoop axios_get u 3 10000 2 = (Inr (Some data), [Fetching u 2])"
    using assms(2) by (subst fetchLoop.simps) simp
  show ?thesis
    unfolding fetchWithRetries_def using assms(1) 2
    by (subst fetchLoop.simps) (simp add: numeral_2_eq_2)
qed

lemma fetchWithRetries_third:
  assumes "axios_get u 1 = Inl m1" and "axios_get u 2 = Inl m2" and "axios_get u 3 = Inr data"
  shows "fetchWithRetries axios_get u =
           (Inr (Some data),
            [Fetching u 1, AttemptFailed 1 m1, Sleep 10000,
             Fetching u 2, AttemptFailed 2 m2, Sleep 10000,
             Fetching u 3])"
proof -
  have 3: "fetchLoop axios_get u 3 10000 3 = (Inr (Some data), [Fetching u 3])"
    using assms(3) by (subst fetchLoop.simps) simp
  have 2: "fetchLoop axios_get u 3 10000 2 =
             (Inr (Some data), [Fetching u 2, AttemptFailed 2 m2, Sleep 10000, Fetching u 3])"
    using assms(2) 3 by (subst fetchLoop.simps) (simp add: numeral_3_eq_3 numeral_2_eq_2)
  show ?thesis
    unfolding fetchWithRetries_def using assms(1) 2
    by (subst fetchLoop.simps) (simp add: numeral_2_eq_2)
qed

lemma fetchWithRetries_exhausted:
  assumes "axios_get u 1 = Inl m1" and "axios_get u 2 = Inl m2" and "axios_get u 3 = Inl m3"
  shows "fetchWithRetries axios_get u =
           (Inl (FetchFailed u 3),
            [Fetching u 1, AttemptFailed 1 m1, Sleep 10000,
             Fetching u 2, AttemptFailed 2 m2, Sleep 10000,
             Fetching u 3, AttemptFailed 3 m3])"
proof -
  have 3: "fetchLoop axios_get u 3 10000 3 =
             (Inl (FetchFailed u 3), [Fetching u 3, AttemptFailed 3 m3])"
    using assms(3) by (subst fetchLoop.simps) simp
  have 2: "fetchLoop axios_get u 3 10000 2 =
             (Inl (FetchFailed u 3),
              [Fetching u 2, AttemptFailed 2 m2, Sleep 10000, Fetching u 3, AttemptFailed 3 m3])"
    using assms(2) 3 by (subst fetchLoop.simps) (simp add: numeral_3_eq_3 numeral_2_eq_2)
  show ?thesis
    unfolding fetchWithRetries_def using assms(1) 2
    by (subst fetchLoop.simps) (simp add: numeral_2_eq_2)
qed

text \<open>The loop requests at most \<open>retries\<close> times and never returns without a value.\<close>

lemma fetchLoop_attempts:
  "attempt \<le> retries \<Longrightarrow>
     length (filter (\<lambda>x. \<exists>n. x = Fetching u n)
       (snd (fetchLoop axios_get u retries delay attempt))) \<le> Suc retries - attempt"
proof (induction axios_get u retries delay attempt rule: fetchLoop.induct)
  case (1 axios_get u retries delay attempt)
  show ?case
  proof (cases "axios_get u attempt")
    case (Inr d)
    with 1 show ?thesis by (subst fetchLoop.simps) simp
  next
    case (Inl m)
    show ?thesis
    proof (cases "attempt < retries")
      case True
      with 1 Inl have
        "length (filter (\<lambda>x. \<exists>n. x = Fetching u n)
           (snd (fetchLoop axios_get u retries delay (Suc attempt)))) \<le> Suc retries - Suc attempt"
        by simp
      with True Inl show ?thesis
        by (subst fetchLoop.simps) (auto split: prod.splits)
    next
      case False
      with 1 Inl show ?thesis by (subst fetchLoop.simps) simp
    qed
  qed
qed

lemma fetchWithRetries_at_most_three:
  "length (filter (\<lambda>x. \<exists>n. x = Fetching u n) (snd (fetchWithRetries axios_get u))) \<le> 3"
  using fetchLoop_attempts [of 1 3 u axios_get 10000] by (simp add: fetchWithRetries_def)

lemma fetchLoop_defined:
  "attempt \<le> retries \<Longrightarrow> fst (fetchLoop axios_get u retries delay attempt) \<noteq> Inr None"
proof (induction axios_get u retries delay attempt rule: fetchLoop.induct)
  case (1 axios_get u retries delay attempt)
  then show ?case
    by (subst fetchLoop.simps) (auto split: sum.splits prod.splits)
qed

lemma fetchWithRetries_defined: "fst (fetchWithRetries axios_get u) \<noteq> Inr None"
  using fetchLoop_defined [of 1 3 axios_get u 10000] by (simp add: fetchWithRetries_def)

text \<open>Every pause of the loop is the given delay.\<close>

lemma fetchLoop_sleeps:
  "Sleep n \<in> set (snd (fetchLoop axios_get u retries delay attempt)) \<Longrightarrow> n = delay"
proof (induction axios_get u retries delay attempt rule: fetchLoop.induct)
  case (1 axios_get u retries delay attempt)
  show ?case
  proof (cases "attempt \<le> retries")
    case False
    with "1.prems" show ?thesis by (subst (asm) fetchLoop.simps) simp
  next
    case le: True
    show ?thesis
    proof (cases "axios_get u attempt")
      case (Inr d)
      with "1.prems" le show ?thesis by (subst (asm) fetchLoop.simps) simp
    next
      case (Inl m)
      show ?thesis
      proof (cases "attempt < retries")
        case True
        with "1.prems" le Inl
        have "n = delay \<or> Sleep n \<in> set (snd (fetchLoop axios_get u retries delay (Suc attempt)))"
          by (subst (asm) fetchLoop.simps) (auto split: prod.splits)
        with "1.IH" [OF le Inl True] show ?thesis by blast
      next
        case False
        with "1.prems" le Inl show ?thesis by (subst (asm) fetchLoop.simps) simp
      qed
    qed
  qed
qed

lemma fetchWithRetries_sleeps:
  "Sleep n \<in> set (snd (fetchWithRetries axios_get u)) \<Longrightarrow> n = 10000"
  unfolding fetchWithRetries_def by (rule fetchLoop_sleeps)

subsection \<open>Passes that change nothing\<close>

lemma eventLoop_no_events: "eventLoop fails [] sched p = p"
  by (induction sched arbitrary: p) (simp_all add: turn_def)

lemma reconcile_no_events:
  "reconcile fails sched [] d =
     \<lparr>db = d, pendingOperations = 0, stmtInsert = Finalized, stmtUpdate = Finalized,
      stages = [], console = []\<rparr>"
  by (simp add: reconcile_def eventLoop_no_events finalize_def)

text \<open>
  C6. With the defaults of \<open>fetchWithRetries\<close>, whatever the upstream does, at most three
  requests are made and every pause lasts 10000 ms. When the first two requests fail and the
  third succeeds, three requests were made with a pause of 10000 ms after each failure, the
  fetcher returns the third response, and the pass reconciles the batch normalized from that
  response. When all three requests fail, there is no fourth request and no pause after the
  third failure; the fetcher throws, the pass catches and prints the error and leaves the
  table as it was, so that the server state after the pass is the state before it: a later
  pass for the other source and a later request find what they would have found without it.
\<close>

theorem fetch_resilience:
  "length (filter (\<lambda>x. \<exists>n. x = Fetching u n) (snd (fetchWithRetries axios_get u))) \<le> 3 \<and>
   (\<forall>n. Sleep n \<in> set (snd (fetchWithRetries axios_get u)) \<longrightarrow> n = 10000) \<and>
   (axios_get u 1 = Inl m1 \<and> axios_get u 2 = Inl m2 \<and> axios_get u 3 = Inr data \<longrightarrow>
      fetchWithRetries axios_get u =
        (Inr (Some data),
         [Fetching u 1, AttemptFailed 1 m1, Sleep 10000,
          Fetching u 2, AttemptFailed 2 m2, Sleep 10000,
          Fetching u 3]) \<and>
      (ICAL_parse data = Inr vevents \<and> normalizeAll prefix vevents = Inr events \<longrightarrow>
         stored (fetchAndStoreEvents axios_get ICAL_parse fails sched u prefix d) =
           db (reconcile fails sched events d))) \<and>
   (axios_get u 1 = Inl m1 \<and> axios_get u 2 = Inl m2 \<and> axios_get u 3 = Inl m3 \<longrightarrow>
      fetchAndStoreEvents axios_get ICAL_parse fails sched u prefix d =
        Caught (FetchFailed u 3) d
          [Fetching u 1, AttemptFailed 1 m1, Sleep 10000,
           Fetching u 2, AttemptFailed 2 m2, Sleep 10000,
           Fetching u 3, AttemptFailed 3 m3,
           ErrorFetchingAndStoring (FetchFailed u 3)] \<and>
      serve (Ingest axios_get ICAL_parse fails sched u prefix) sv = sv)"
proof (intro conjI impI allI)
  show "length (filter (\<lambda>x. \<exists>n. x = Fetching u n) (snd (fetchWithRetries axios_get u))) \<le> 3"
    by (rule fetchWithRetries_at_most_three)
next
  fix n assume "Sleep n \<in> set (snd (fetchWithRetries axios_get u))"
  then show "n = 10000" by (rule fetchWithRetries_sleeps)
next
  assume a: "axios_get u 1 = Inl m1 \<and> axios_get u 2 = Inl m2 \<and> axios_get u 3 = Inr data"
  then show f: "fetchWithRetries axios_get u =
        (Inr (Some data),
         [Fetching u 1, AttemptFailed 1 m1, Sleep 10000,
          Fetching u 2, AttemptFailed 2 m2, Sleep 10000,
          Fetching u 3])"
    by (simp add: fetchWithRetries_third)
  assume "ICAL_parse data = Inr vevents \<and> normalizeAll prefix vevents = Inr events"
  with f show "stored (fetchAndStoreEvents axios_get ICAL_parse fails sched u prefix d) =
           db (reconcile fails sched events d)"
    by (simp add: fetchAndStoreEvents_def Let_def)
next
  assume a: "axios_get u 1 = Inl m1 \<and> axios_get u 2 = Inl m2 \<and> axios_get u 3 = Inl m3"
  then have f: "fetchWithRetries axios_get u =
           (Inl (FetchFailed u 3),
            [Fetching u 1, AttemptFailed 1 m1, Sleep 10000,
             Fetching u 2, AttemptFailed 2 m2, Sleep 10000,
             Fetching u 3, AttemptFailed 3 m3])"
    by (simp add: fetchWithRetries_exhausted)
  then show c: "fetchAndStoreEvents axios_get ICAL_parse fails sched u prefix d =
        Caught (FetchFailed u 3) d
          [Fetching u 1, AttemptFailed 1 m1, Sleep 10000,
           Fetching u 2, AttemptFailed 2 m2, Sleep 10000,
           Fetching u 3, AttemptFailed 3 m3,
           ErrorFetchingAndStoring (FetchFailed u 3)]"
    by (simp add: fetchAndStoreEvents_def)
  from f show "serve (Ingest axios_get ICAL_parse fails sched u prefix) sv = sv"
    by (simp add: fetchAndStoreEvents_def)
qed

theorem fetch_resilience_witness:
  "fetchWithRetries (\<lambda>u n. if n = 3 then Inr ''BEGIN:VCALENDAR'' else Inl ''ECONNREFUSED'')
     ''http://sonarr/feed.ics'' =
     (Inr (Some ''BEGIN:VCALENDAR''),
      [Fetching ''http://sonarr/feed.ics'' 1, AttemptFailed 1 ''ECONNREFUSED'', Sleep 10000,
       Fetching ''http://sonarr/feed.ics'' 2, AttemptFailed 2 ''ECONNREFUSED'', Sleep 10000,
       Fetching ''http://sonarr/feed.ics'' 3]) \<and>
   stored (fetchAndStoreEvents
       (\<lambda>u n. if n = 3 then Inr ''BEGIN:VCALENDAR'' else Inl ''ECONNREFUSED'')
       (\<lambda>doc. Inr [\<lparr>summary = Some ''Show - 1x01'', startDate = Some ''2024-01-01T10:00:00'',
                     endDate = Some ''2024-01-01T11:00:00'', status = Some ''CONFIRMED'',
                     v_description = None, v_location = None\<rparr>])
       (\<lambda>i. False) [0, 0, 0] ''http://sonarr/feed.ics'' ''Sonarr'' \<lparr>rows = [], seq = 0\<rparr>) =
     \<lparr>rows = [\<lparr>r_id = 1, r_title = ''[Sonarr] Show - 1x01'',
                r_start = ''2024-01-01T10:00:00'', r_end = ''2024-01-01T11:00:00'',
                r_color = ''green'', r_description = [], r_location = []\<rparr>],
      seq = 1\<rparr> \<and>
   fetchAndStoreEvents (\<lambda>u n. Inl ''ECONNREFUSED'')
       (\<lambda>doc. Inr [\<lparr>summary = Some ''Show - 1x01'', startDate = Some ''2024-01-01T10:00:00'',
                     endDate = Some ''2024-01-01T11:00:00'', status = Some ''CONFIRMED'',
                     v_description = None, v_location = None\<rparr>])
       (\<lambda>i. False) [0, 0, 0] ''http://sonarr/feed.ics'' ''Sonarr'' \<lparr>rows = [], seq = 0\<rparr> =
     Caught (FetchFailed ''http://sonarr/feed.ics'' 3) \<lparr>rows = [], seq = 0\<rparr>
       [Fetching ''http://sonarr/feed.ics'' 1, AttemptFailed 1 ''ECONNREFUSED'', Sleep 10000,
        Fetching ''http://sonarr/feed.ics'' 2, AttemptFailed 2 ''ECONNREFUSED'', Sleep 10000,
        Fetching ''http://sonarr/feed.ics'' 3, AttemptFailed 3 ''ECONNREFUSED'',
        ErrorFetchingAndStoring (FetchFailed ''http://sonarr/feed.ics'' 3)]"
  using
    fetch_resilience
      [where axios_get = "\<lambda>u n. if n = 3 then Inr ''BEGIN:VCALENDAR'' else Inl ''ECONNREFUSED''"
         and u = "''http://sonarr/feed.ics''" and ?m1.0 = "''ECONNREFUSED''"
         and ?m2.0 = "''ECONNREFUSED''" and data = "''BEGIN:VCALENDAR''"
         and ICAL_parse = "\<lambda>doc. Inr [\<lparr>summary = Some ''Show - 1x01'',
                     startDate = Some ''2024-01-01T10:00:00'',
                     endDate = Some ''2024-01-01T11:00:00'', status = Some ''CONFIRMED'',
                     v_description = None, v_location = None\<rparr>]"
         and vevents = "[\<lparr>summary = Some ''Show - 1x01'',
                     startDate = Some ''2024-01-01T10:00:00'',
                     endDate = Some ''2024-01-01T11:00:00'', status = Some ''CONFIRMED'',
                     v_description = None, v_location = None\<rparr>]"
         and prefix = "''Sonarr''"
         and events = "[\<lparr>title = ''[Sonarr] Show - 1x01'', start = ''2024-01-01T10:00:00'',
                         end' = ''2024-01-01T11:00:00'', color = ''green'',
                         description = [], location = []\<rparr>]"
         and fails = "\<lambda>i. False" and sched = "[0, 0, 0]" and d = "\<lparr>rows = [], seq = 0\<rparr>", THEN conjunct2, THEN conjunct2, THEN conjunct1]
    fetch_resilience
      [where axios_get = "\<lambda>u n. Inl ''ECONNREFUSED''"
         and u = "''http://sonarr/feed.ics''" and ?m1.0 = "''ECONNREFUSED''"
         and ?m2.0 = "''ECONNREFUSED''" and ?m3.0 = "''ECONNREFUSED''"
         and ICAL_parse = "\<lambda>doc. Inr [\<lparr>summary = Some ''Show - 1x01'',
                     startDate = Some ''2024-01-01T10:00:00'',
                     endDate = Some ''2024-01-01T11:00:00'', status = Some ''CONFIRMED'',
                     v_description = None, v_location = None\<rparr>]"
         and prefix = "''Sonarr''"
         and fails = "\<lambda>i. False" and sched = "[0, 0, 0]" and d = "\<lparr>rows = [], seq = 0\<rparr>", THEN conjunct2, THEN conjunct2, THEN conjunct2]
  by (simp add: normalizeVevent_def js_string_def or_empty_def reconcile_def turn_def
        callback_def finalize_def db_get_def same_key_def stmtInsert_run_def next_id_def)

text \<open>
  C8. When the fetched document is malformed, so that the parser throws, the pass ends in
  the \<open>catch\<close>: the error is printed after the output of the fetch, nothing was normalized
  or reconciled, and the table is as it was.
\<close>

theorem malformed_document_aborts_pass:
  assumes "fetchWithRetries axios_get u = (Inr (Some data), fx)"
    and "ICAL_parse data = Inl e"
  shows "fetchAndStoreEvents axios_get ICAL_parse fails sched u prefix d =
           Caught e d (fx @ [ErrorFetchingAndStoring e]) \<and>
         stored (fetchAndStoreEvents axios_get ICAL_parse fails sched u prefix d) = d"
  using assms by (simp add: fetchAndStoreEvents_def)

theorem malformed_document_aborts_pass_witness:
  "fetchAndStoreEvents (\<lambda>u n. Inr ''<html>502 Bad Gateway</html>'')
     (\<lambda>doc. Inl (ParserError ''invalid ical body''))
     (\<lambda>i. False) [0, 0, 0] ''http://radarr/feed.ics'' ''Radarr''
     \<lparr>rows = [\<lparr>r_id = 1, r_title = ''[Radarr] Film'',
                r_start = ''2024-01-01T12:00:00'', r_end = ''2024-01-01T13:00:00'',
                r_color = ''red'', r_description = [], r_location = []\<rparr>],
      seq = 1\<rparr> =
   Caught (ParserError ''invalid ical body'')
     \<lparr>rows = [\<lparr>r_id = 1, r_title = ''[Radarr] Film'',
                r_start = ''2024-01-01T12:00:00'', r_end = ''2024-01-01T13:00:00'',
                r_color = ''red'', r_description = [], r_location = []\<rparr>],
      seq = 1\<rparr>
     [Fetching ''http://radarr/feed.ics'' 1,
      ErrorFetchingAndStoring (ParserError ''invalid ical body'')]"
  using malformed_document_aborts_pass
      [where axios_get = "\<lambda>u n. Inr ''<html>502 Bad Gateway</html>''"
         and u = "''http://radarr/feed.ics''" and data = "''<html>502 Bad Gateway</html>''"
         and fx = "[Fetching ''http://radarr/feed.ics'' 1]"
         and ICAL_parse = "\<lambda>doc. Inl (ParserError ''invalid ical body'')"
         and e = "ParserError ''invalid ical body''"
         and fails = "\<lambda>i. False" and sched = "[0, 0, 0]" and prefix = "''Radarr''"
         and d = "\<lparr>rows = [\<lparr>r_id = 1, r_title = ''[Radarr] Film'',
                r_start = ''2024-01-01T12:00:00'', r_end = ''2024-01-01T13:00:00'',
                r_color = ''red'', r_description = [], r_location = []\<rparr>],
              seq = 1\<rparr>"]
  by (simp add: fetchWithRetries_first)

text \<open>
  C10. A pass over a feed without event components reaches line 105 with no pending
  operation: both statements are finalized there, no SELECT was issued, nothing is printed
  beyond the output of the fetch, and the table is as it was, whatever the event loop does
  afterwards.
\<close>

theorem empty_feed_pass:
  assumes "fetchWithRetries axios_get u = (Inr (Some data), fx)"
    and "ICAL_parse data = Inr []"
  shows "fetchAndStoreEvents axios_get ICAL_parse fails sched u prefix d =
           Reconciling \<lparr>db = d, pendingOperations = 0,
                        stmtInsert = Finalized, stmtUpdate = Finalized,
                        stages = [], console = fx\<rparr>"
  using assms by (simp add: fetchAndStoreEvents_def reconcile_no_events)

theorem empty_feed_pass_witness:
  "fetchAndStoreEvents (\<lambda>u n. Inr ''BEGIN:VCALENDAR END:VCALENDAR'') (\<lambda>doc. Inr [])
     (\<lambda>i. False) [0, 1, 0] ''http://radarr/feed.ics'' ''Radarr''
     \<lparr>rows = [\<lparr>r_id = 1, r_title = ''[Radarr] Film'',
                r_start = ''2024-01-01T12:00:00'', r_end = ''2024-01-01T13:00:00'',
                r_color = ''red'', r_description = [], r_location = []\<rparr>],
      seq = 1\<rparr> =
   Reconciling
     \<lparr>db = \<lparr>rows = [\<lparr>r_id = 1, r_title = ''[Radarr] Film'',
                r_start = ''2024-01-01T12:00:00'', r_end = ''2024-01-01T13:00:00'',
                r_color = ''red'', r_description = [], r_location = []\<rparr>],
             seq = 1\<rparr>,
      pendingOperations = 0, stmtInsert = Finalized, stmtUpdate = Finalized,
      stages = [], console = [Fetching ''http://radarr/feed.ics'' 1]\<rparr>"
  using empty_feed_pass
      [where axios_get = "\<lambda>u n. Inr ''BEGIN:VCALENDAR END:VCALENDAR''"
         and u = "''http://radarr/feed.ics''" and data = "''BEGIN:VCALENDAR END:VCALENDAR''"
         and fx = "[Fetching ''http://radarr/feed.ics'' 1]"
         and ICAL_parse = "\<lambda>doc. Inr []"
         and fails = "\<lambda>i. False" and sched = "[0, 1, 0]" and prefix = "''Radarr''"
         and d = "\<lparr>rows = [\<lparr>r_id = 1, r_title = ''[Radarr] Film'',
                r_start = ''2024-01-01T12:00:00'', r_end = ''2024-01-01T13:00:00'',
                r_color = ''red'', r_description = [], r_location = []\<rparr>],
              seq = 1\<rparr>"]
  by (simp add: fetchWithRetries_first)

subsection \<open>The event loop, turn by turn\<close>

lemma callback_result:
  assumes "callback ev res p = (st, q)"
  shows "db q = db p" and "stages q = stages p"
    and "st = next_stage fails i ev d (Returned res)"
  using assms
  by (cases res; auto simp: callback_def Let_def finalize_def split: option.splits if_splits)+

lemma db_turn:
  "db (turn fails evs i p) =
     (if i < length evs \<and> i < length (stages p) then
        (case stages p ! i of Queued w \<Rightarrow> execute w (db p) | _ \<Rightarrow> db p)
      else db p)"
  by (cases "stages p ! i") (auto simp: turn_def split: prod.splits dest: callback_result(1))

lemma stages_turn:
  "stages (turn fails evs i p) =
     (if i < length evs \<and> i < length (stages p) then
        (stages p)[i := next_stage fails i (evs ! i) (db p) (stages p ! i)]
      else stages p)"
proof (cases "stages p ! i")
  case (Returned res)
  show ?thesis
  proof (cases "callback (evs ! i) res p")
    case (Pair st q)
    from callback_result(3) [OF Pair, of fails i "db p"] callback_result(2) [OF Pair]
      Returned Pair show ?thesis
      by (simp add: turn_def)
  qed
qed (auto simp: turn_def split: prod.splits)

lemma length_stages_turn [simp]: "length (stages (turn fails evs i p)) = length (stages p)"
  by (simp add: stages_turn)

lemma length_stages_eventLoop [simp]:
  "length (stages (eventLoop fails evs sched p)) = length (stages p)"
  by (induction sched arbitrary: p) simp_all

lemma length_stages_reconcile [simp]:
  "length (stages (reconcile fails sched evs d)) = length evs"
  by (simp add: reconcile_def Let_def finalize_def)

lemma eventLoop_invariant:
  assumes "I p" and "\<And>i q. I q \<Longrightarrow> I (turn fails evs i q)"
  shows "I (eventLoop fails evs sched p)"
  using assms(1)
proof (induction sched arbitrary: p)
  case Nil
  then show ?case by simp
next
  case (Cons i sched)
  then show ?case using assms(2) by simp
qed

subsection \<open>The three statements on the table\<close>

lemma db_get_None: "db_get d ev = None \<longleftrightarrow> (\<forall>r \<in> set (rows d). \<not> same_key ev r)"
  by (auto simp: db_get_def find_None_iff)

lemma rows_insert: "rows (stmtInsert_run ev d) = rows d @
        [\<lparr>r_id = next_id d, r_title = title ev, r_start = start ev, r_end = end' ev,
          r_color = color ev, r_description = description ev, r_location = location ev\<rparr>]"
  by (simp add: stmtInsert_run_def)

lemma rows_update: "rows (stmtUpdate_run ev d) = map (\<lambda>r. if same_key ev r then r\<lparr>r_color := color ev\<rparr> else r) (rows d)"
  by (simp add: stmtUpdate_run_def)

lemma same_key_recolor [simp]: "same_key ev (r\<lparr>r_color := c\<rparr>) = same_key ev r"
  by (simp add: same_key_def)

lemma same_key_iff: "same_key ev r \<longleftrightarrow> row_key r = key ev"
  by (auto simp: same_key_def key_def row_key_def)

lemma row_key_recolor [simp]: "row_key (r\<lparr>r_color := c\<rparr>) = row_key r"
  by (simp add: row_key_def)

lemma db_get_cong: "key e = key ev \<Longrightarrow> db_get d e = db_get d ev"
  by (simp add: db_get_def same_key_iff [abs_def])

lemma unchanged_but_color_iff:
  "unchanged_but_color r r' \<longleftrightarrow>
     r_id r' = r_id r \<and> r_title r' = r_title r \<and> r_start r' = r_start r \<and>
     r_end r' = r_end r \<and> r_description r' = r_description r \<and> r_location r' = r_location r"
  by (cases r; cases r') (auto simp: unchanged_but_color_def)

lemma same_key_unchanged: "unchanged_but_color r r' \<Longrightarrow> same_key ev r' = same_key ev r"
  by (metis same_key_recolor unchanged_but_color_def)

lemma map_row_key_update: "map row_key (rows (stmtUpdate_run ev d)) = map row_key (rows d)"
  by (simp add: rows_update o_def)

lemma map_row_key_insert: "map row_key (rows (stmtInsert_run ev d)) = map row_key (rows d) @ [key ev]"
  by (simp add: rows_insert row_key_def key_def)

lemma db_get_None_keys: "db_get d ev = None \<longleftrightarrow> key ev \<notin> set (map row_key (rows d))"
  by (force simp: db_get_None same_key_iff)

lemma db_get_update: "db_get (stmtUpdate_run e d) ev = None \<longleftrightarrow> db_get d ev = None"
  by (simp add: db_get_None_keys map_row_key_update)

lemma db_get_insert: "db_get (stmtInsert_run e d) ev = None \<longleftrightarrow> db_get d ev = None \<and> key e \<noteq> key ev"
  by (auto simp: db_get_None_keys map_row_key_insert)

lemma db_get_execute: "db_get d ev \<noteq> None \<Longrightarrow> db_get (execute w d) ev \<noteq> None"
  by (cases w) (simp_all add: db_get_insert db_get_update)

lemma one_per_key_update: "one_per_key (stmtUpdate_run ev d) = one_per_key d"
  by (simp add: one_per_key_def map_row_key_update)

lemma one_per_key_insert: "db_get d ev = None \<Longrightarrow> one_per_key d \<Longrightarrow> one_per_key (stmtInsert_run ev d)"
  by (simp add: one_per_key_def map_row_key_insert db_get_None_keys)

lemma update_colored: "colored ev d \<Longrightarrow> stmtUpdate_run ev d = d"
proof -
  assume c: "colored ev d"
  have "map (\<lambda>r. if same_key ev r then r\<lparr>r_color := color ev\<rparr> else r) (rows d) = rows d"
    using c by (intro map_idI) (auto simp: colored_def)
  then show ?thesis by (simp add: stmtUpdate_run_def)
qed

subsection \<open>Rows are kept, and new rows are those of unmatched events\<close>

lemma grown_refl: "grown evs d d"
  by (simp add: grown_def unchanged_but_color_def)

lemma grown_lookup:
  assumes "grown evs d d'" and "db_get d' ev = None"
  shows "db_get d ev = None"
proof -
  have "\<not> same_key ev r" if "r \<in> set (rows d)" for r
  proof -
    from that obtain k where k: "k < length (rows d)" "rows d ! k = r"
      by (auto simp: in_set_conv_nth)
    with assms(1) have u: "unchanged_but_color r (rows d' ! k)" and "k < length (rows d')"
      by (auto simp: grown_def)
    then have "rows d' ! k \<in> set (rows d')" by simp
    with assms(2) have "\<not> same_key ev (rows d' ! k)" by (simp add: db_get_None)
    with u show ?thesis by (simp add: same_key_unchanged)
  qed
  then show ?thesis by (simp add: db_get_None)
qed

lemma grown_update:
  assumes "grown evs d d'" and "ev \<in> set evs"
  shows "grown evs d (stmtUpdate_run ev d')"
proof -
  let ?f = "\<lambda>r. if same_key ev r then r\<lparr>r_color := color ev\<rparr> else r"
  have len: "length (rows d) \<le> length (rows d')" using assms(1) by (simp add: grown_def)
  have a: "unchanged_but_color (rows d ! k) (?f (rows d' ! k)) \<and>
         (r_color (?f (rows d' ! k)) = r_color (rows d ! k) \<or>
          (\<exists>e \<in> set evs. same_key e (rows d ! k) \<and> r_color (?f (rows d' ! k)) = color e))"
    if "k < length (rows d)" for k
  proof -
    from assms(1) that have u: "unchanged_but_color (rows d ! k) (rows d' ! k)"
      and c: "r_color (rows d' ! k) = r_color (rows d ! k) \<or>
          (\<exists>e \<in> set evs. same_key e (rows d ! k) \<and> r_color (rows d' ! k) = color e)"
      by (auto simp: grown_def)
    show ?thesis
    proof (cases "same_key ev (rows d' ! k)")
      case True
      with u have "same_key ev (rows d ! k)" by (simp add: same_key_unchanged)
      moreover from u
      have "unchanged_but_color (rows d ! k) ((rows d' ! k)\<lparr>r_color := color ev\<rparr>)"
        by (simp add: unchanged_but_color_iff)
      ultimately show ?thesis using True assms(2) by auto
    next
      case False
      with u c show ?thesis by simp
    qed
  qed
  have b: "\<exists>e \<in> set evs. db_get d e = None \<and> same_key e r'"
    if "r' \<in> set (drop (length (rows d)) (map ?f (rows d')))" for r'
  proof -
    from that obtain r where "r \<in> set (drop (length (rows d)) (rows d'))" "r' = ?f r"
      by (auto simp: drop_map)
    with assms(1) show ?thesis by (auto simp: grown_def)
  qed
  show ?thesis
    unfolding grown_def rows_update using len a b by simp
qed

lemma grown_insert:
  assumes "grown evs d d'" and "ev \<in> set evs" and "db_get d ev = None"
  shows "grown evs d (stmtInsert_run ev d')"
proof -
  have len: "length (rows d) \<le> length (rows d')" using assms(1) by (simp add: grown_def)
  have "same_key ev \<lparr>r_id = next_id d', r_title = title ev, r_start = start ev, r_end = end' ev,
          r_color = color ev, r_description = description ev, r_location = location ev\<rparr>"
    by (simp add: same_key_def)
  with assms len show ?thesis
    unfolding grown_def rows_insert
    by (auto simp: nth_append)
qed

lemma grown_turn:
  assumes g: "grown evs d (db p)"
    and s: "\<forall>i < length evs. i < length (stages p) \<longrightarrow> stage_ok d (evs ! i) (stages p ! i)"
  shows "grown evs d (db (turn fails evs j p)) \<and>
         (\<forall>i < length evs. i < length (stages (turn fails evs j p)) \<longrightarrow>
             stage_ok d (evs ! i) (stages (turn fails evs j p) ! i))"
proof (cases "j < length evs \<and> j < length (stages p)")
  case False
  then have "turn fails evs j p = p" by (auto simp: turn_def)
  with assms show ?thesis by simp
next
  case True
  then have ok: "stage_ok d (evs ! j) (stages p ! j)" and mem: "evs ! j \<in> set evs"
    using s by auto
  have 1: "grown evs d (db (turn fails evs j p))"
  proof (cases "stages p ! j")
    case (Queued w)
    with ok g mem True show ?thesis
      by (cases w) (auto simp: db_turn grown_update grown_insert)
  qed (use g True in \<open>simp_all add: db_turn\<close>)
  have n: "stage_ok d (evs ! j) (next_stage fails j (evs ! j) (db p) (stages p ! j))"
  proof (cases "stages p ! j")
    case Issued
    show ?thesis
    proof (cases "db_get (db p) (evs ! j)")
      case None
      with grown_lookup [OF g] Issued show ?thesis by simp
    next
      case (Some r)
      with Issued show ?thesis by simp
    qed
  next
    case (Returned res)
    show ?thesis
    proof (cases res)
      case LookupErr
      with Returned show ?thesis by simp
    next
      case (LookupRow ro)
      with Returned ok show ?thesis by (cases ro) simp_all
    qed
  qed simp_all
  have 2: "stage_ok d (evs ! i) (stages (turn fails evs j p) ! i)"
    if "i < length evs" "i < length (stages (turn fails evs j p))" for i
    using that s n True by (cases "i = j") (auto simp: stages_turn)
  from 1 2 show ?thesis by blast
qed

lemma grown_eventLoop:
  assumes "grown evs d (db p)"
    and "\<forall>i < length evs. i < length (stages p) \<longrightarrow> stage_ok d (evs ! i) (stages p ! i)"
  shows "grown evs d (db (eventLoop fails evs sched p))"
proof -
  let ?I = "\<lambda>q. grown evs d (db q) \<and>
     (\<forall>i < length evs. i < length (stages q) \<longrightarrow> stage_ok d (evs ! i) (stages q ! i))"
  have "?I (eventLoop fails evs sched p)"
    by (rule eventLoop_invariant [where I = ?I]) (use assms grown_turn in auto)
  then show ?thesis by simp
qed

lemma grown_reconcile: "grown evs d (db (reconcile fails sched evs d))"
  unfolding reconcile_def Let_def
  by (rule grown_eventLoop) (auto simp: grown_refl finalize_def)

subsection \<open>Colors after a settled pass\<close>

lemma colored_update_same:
  assumes "key e = key ev" and "color e = color ev"
  shows "colored ev (stmtUpdate_run e d)"
  using assms by (auto simp: colored_def rows_update same_key_iff)

lemma colored_update_other:
  assumes "key e \<noteq> key ev" and "colored ev d"
  shows "colored ev (stmtUpdate_run e d)"
  using assms by (auto simp: colored_def rows_update same_key_iff)

lemma colored_insert_same:
  assumes "color e = color ev" and "colored ev d"
  shows "colored ev (stmtInsert_run e d)"
  using assms by (auto simp: colored_def rows_insert)

lemma colored_insert_other:
  assumes "key e \<noteq> key ev" and "colored ev d"
  shows "colored ev (stmtInsert_run e d)"
  using assms by (auto simp: colored_def rows_insert same_key_def key_def)

lemma colored_no_row: "db_get d ev = None \<Longrightarrow> colored ev d"
  by (simp add: colored_def db_get_None)

lemma settling_turn:
  assumes nofail: "\<forall>i < length evs. \<not> fails i"
    and cons: "\<forall>e \<in> set evs. key e = key ev \<longrightarrow> color e = color ev"
    and inv: "settling fails evs ev p"
  shows "settling fails evs ev (turn fails evs j p)"
proof (cases "j < length evs \<and> j < length (stages p)")
  case False
  then have "turn fails evs j p = p" by (auto simp: turn_def)
  with inv show ?thesis by simp
next
  case True
  let ?e = "evs ! j" and ?st = "stages p ! j"
  let ?n = "next_stage fails j ?e (db p) ?st"
  from True have mem: "?e \<in> set evs" by simp
  from inv True have wf: "wellformed ?e ?st" by (simp add: settling_def)
  from nofail True have nf: "\<not> fails j" by simp
  have st': "stages (turn fails evs j p) = (stages p)[j := ?n]"
    using True by (simp add: stages_turn)
  have wfn: "wellformed ?e ?n"
  proof (cases ?st)
    case Issued
    with nf show ?thesis by simp
  next
    case (Returned res)
    show ?thesis
    proof (cases res)
      case LookupErr
      with Returned wf show ?thesis by simp
    next
      case (LookupRow ro)
      with Returned show ?thesis by (cases ro) simp_all
    qed
  qed simp_all
  have 1: "wellformed (evs ! i) (stages (turn fails evs j p) ! i)"
    if "i < length evs" "i < length (stages (turn fails evs j p))" for i
    using that inv wfn True by (cases "i = j") (auto simp: st' settling_def)
  have 2: "colored ev (db (turn fails evs j p))"
    if ex: "\<exists>i < length evs. i < length (stages (turn fails evs j p)) \<and> key (evs ! i) = key ev \<and>
           decided (stages (turn fails evs j p) ! i)"
  proof -
    from ex obtain i where i: "i < length evs" "i < length (stages p)" "key (evs ! i) = key ev"
      "decided ((stages p)[j := ?n] ! i)" by (auto simp: st')
    have old: "colored ev (db p)" if "i \<noteq> j \<or> decided ?st"
    proof -
      from that i True have "\<exists>i < length evs. i < length (stages p) \<and> key (evs ! i) = key ev \<and>
           decided (stages p ! i)" by (cases "i = j") auto
      with inv show ?thesis by (simp add: settling_def)
    qed
    show ?thesis
    proof (cases ?st)
      case Issued
      then have dbs: "db (turn fails evs j p) = db p" using True by (simp add: db_turn)
      show ?thesis
      proof (cases "i = j")
        case False
        with old dbs show ?thesis by simp
      next
        case eq: True
        with i Issued nf True have "db_get (db p) ?e = None"
          by (cases "db_get (db p) ?e") auto
        with i eq have "db_get (db p) ev = None" using db_get_cong by metis
        with dbs show ?thesis by (simp add: colored_no_row)
      qed
    next
      case (Returned res)
      then have dbs: "db (turn fails evs j p) = db p" using True by (simp add: db_turn)
      have "decided ?n \<Longrightarrow> decided ?st"
      proof (cases res)
        case LookupErr
        with Returned wf show ?thesis by simp
      next
        case (LookupRow ro)
        with Returned show "decided ?n \<Longrightarrow> decided ?st" by (cases ro) simp_all
      qed
      with i True have "i \<noteq> j \<or> decided ?st" by (cases "i = j") auto
      with old dbs show ?thesis by simp
    next
      case (Queued w)
      then have dbs: "db (turn fails evs j p) = execute w (db p)" using True by (simp add: db_turn)
      from wf Queued have w: "w = RunInsert ?e \<or> w = RunUpdate ?e" by simp
      show ?thesis
      proof (cases "key ?e = key ev")
        case same: True
        with cons mem have col: "color ?e = color ev" by blast
        from w show ?thesis
        proof
          assume ins: "w = RunInsert ?e"
          with Queued have "decided ?st" by simp
          from old [OF disjI2, OF this] col ins dbs show ?thesis
            by (simp add: colored_insert_same)
        next
          assume "w = RunUpdate ?e"
          with same col dbs show ?thesis by (simp add: colored_update_same)
        qed
      next
        case other: False
        with i have "i \<noteq> j" by auto
        from old [OF disjI1, OF this] other w dbs show ?thesis
          by (auto simp: colored_insert_other colored_update_other)
      qed
    next
      case Done
      then have dbs: "db (turn fails evs j p) = db p" using True by (simp add: db_turn)
      from Done have "decided ?st" by simp
      from old [OF disjI2, OF this] dbs show ?thesis by simp
    qed
  qed
  from 1 2 show ?thesis unfolding settling_def by blast
qed

lemma settling_reconcile:
  assumes "\<forall>i < length evs. \<not> fails i"
    and "\<forall>e \<in> set evs. key e = key ev \<longrightarrow> color e = color ev"
  shows "settling fails evs ev (reconcile fails sched evs d)"
  unfolding reconcile_def Let_def
  by (rule eventLoop_invariant [where I = "settling fails evs ev"])
     (use assms settling_turn in \<open>auto simp: settling_def finalize_def\<close>)

lemma settled_colored:
  assumes "\<forall>i < length evs. \<not> fails i"
    and "\<forall>e \<in> set evs. key e = key ev \<longrightarrow> color e = color ev"
    and "ev \<in> set evs"
    and "settled (reconcile fails sched evs d)"
  shows "colored ev (db (reconcile fails sched evs d))"
proof -
  let ?p = "reconcile fails sched evs d"
  from assms(3) obtain i where i: "i < length evs" "evs ! i = ev"
    by (auto simp: in_set_conv_nth)
  with assms(4) have "stages ?p ! i = Done"
    by (simp add: settled_def list_all_length)
  with i have "\<exists>i < length evs. i < length (stages ?p) \<and> key (evs ! i) = key ev \<and>
           decided (stages ?p ! i)" by auto
  with settling_reconcile [OF assms(1,2), of sched d] show ?thesis
    by (simp add: settling_def)
qed

subsection \<open>Three turns for every event settle a pass\<close>

text \<open>
  A turn moves its event on by one stage, or two when the lookup failed, and leaves the
  other events where they are. So a schedule that gives every event of the batch three
  turns, in whatever order and with whatever else in between, settles the pass.
\<close>

lemma rank_Done: "rank st = 3 \<longleftrightarrow> st = Done"
  by (cases st) simp_all

lemma rank_le: "rank st \<le> 3"
  by (cases st) simp_all

lemma rank_next_stage: "min 3 (Suc (rank st)) \<le> rank (next_stage fails i ev d st)"
proof (cases st)
  case (Returned res)
  show ?thesis
  proof (cases res)
    case LookupErr
    with Returned show ?thesis by simp
  next
    case (LookupRow ro)
    with Returned show ?thesis by (cases ro) simp_all
  qed
qed simp_all

lemma rank_turn:
  assumes "j < length evs" and "j < length (stages p)"
  shows "(if i = j then min 3 (Suc (rank (stages p ! j))) else rank (stages p ! j))
           \<le> rank (stages (turn fails evs i p) ! j)"
proof (cases "i = j")
  case True
  with assms rank_next_stage [of "stages p ! j" fails j "evs ! j" "db p"] show ?thesis
    by (simp add: stages_turn)
next
  case False
  with assms show ?thesis by (simp add: stages_turn)
qed

lemma rank_eventLoop:
  assumes "j < length evs" and "j < length (stages p)"
  shows "min 3 (rank (stages p ! j) + count_list sched j)
           \<le> rank (stages (eventLoop fails evs sched p) ! j)"
  using assms(2)
proof (induction sched arbitrary: p)
  case Nil
  then show ?case by simp
next
  case (Cons i sched)
  let ?q = "turn fails evs i p"
  from Cons.prems have lq: "j < length (stages ?q)" by simp
  from Cons.IH [OF lq] have ih:
    "min 3 (rank (stages ?q ! j) + count_list sched j)
       \<le> rank (stages (eventLoop fails evs sched ?q) ! j)" .
  from rank_turn [OF assms(1) Cons.prems, of i fails]
  have "min 3 (rank (stages p ! j) + count_list (i # sched) j)
          \<le> min 3 (rank (stages ?q ! j) + count_list sched j)"
    by (cases "i = j") auto
  with ih show ?case by simp
qed

lemma three_turns_settle:
  assumes "\<forall>i < length evs. 3 \<le> count_list sched i"
  shows "settled (reconcile fails sched evs d)"
proof -
  let ?p = "reconcile fails sched evs d"
  have "stages ?p ! j = Done" if j: "j < length evs" for j
  proof -
    let ?p1 = "if int (length evs) = 0
               then finalize \<lparr>db = d, pendingOperations = int (length evs),
                      stmtInsert = Prepared, stmtUpdate = Prepared,
                      stages = replicate (length evs) Issued, console = []\<rparr>
               else \<lparr>db = d, pendingOperations = int (length evs),
                      stmtInsert = Prepared, stmtUpdate = Prepared,
                      stages = replicate (length evs) Issued, console = []\<rparr>"
    have l: "j < length (stages ?p1)" using j by (auto simp: finalize_def)
    have "stages ?p1 ! j = Issued" using j by (auto simp: finalize_def)
    with rank_eventLoop [OF j l, of sched fails] assms j
    have "3 \<le> rank (stages (eventLoop fails evs sched ?p1) ! j)" by simp
    moreover have "?p = eventLoop fails evs sched ?p1"
      by (simp add: reconcile_def Let_def)
    ultimately have "3 \<le> rank (stages ?p ! j)" by simp
    with rank_le [of "stages ?p ! j"] show ?thesis by (simp add: rank_Done [symmetric])
  qed
  then show ?thesis by (simp add: settled_def list_all_length)
qed

text \<open>
  C2. For every batch, every schedule and every pattern of lookup failures, a pass relates
  the table before it to the table at any later moment as follows. Every row that was
  stored keeps its place, its id, title, start, end, description and location; its color
  is the old one or the color of a batch record with its identity key. Every row the pass
  has added carries the identity key of a batch record that had no stored row when the pass
  began: for a batch record that matches a stored row no row is created. Every schedule
  that gives each event three turns settles the pass. And once the pass has settled without
  lookup failure, every stored row with the key of a batch record has the color of that
  record (where several batch records share the key, provided they agree on the color): so
  under every schedule with three turns for each event, a stored row that a batch record
  matches is, after the pass, that same row with the color of the record. A record stored
  red and ingested again as confirmed is green, in place.
\<close>

theorem matched_record_recolored_in_place:
  assumes "d' = db (reconcile fails sched evs d)"
  shows "length (rows d) \<le> length (rows d') \<and>
         (\<forall>k < length (rows d).
            rows d' ! k = (rows d ! k)\<lparr>r_color := r_color (rows d' ! k)\<rparr> \<and>
            (r_color (rows d' ! k) = r_color (rows d ! k) \<or>
             (\<exists>ev \<in> set evs. same_key ev (rows d ! k) \<and> r_color (rows d' ! k) = color ev))) \<and>
         (\<forall>r' \<in> set (drop (length (rows d)) (rows d')).
            \<exists>ev \<in> set evs. db_get d ev = None \<and> same_key ev r') \<and>
         (settled (reconcile fails sched evs d) \<and> (\<forall>i < length evs. \<not> fails i) \<and>
          ev \<in> set evs \<and> (\<forall>e \<in> set evs. key e = key ev \<longrightarrow> color e = color ev) \<longrightarrow>
            (\<forall>r' \<in> set (rows d'). same_key ev r' \<longrightarrow> r_color r' = color ev)) \<and>
         ((\<forall>i < length evs. 3 \<le> count_list sched i) \<longrightarrow>
            settled (reconcile fails sched evs d)) \<and>
         ((\<forall>i < length evs. 3 \<le> count_list sched i \<and> \<not> fails i) \<and>
          ev \<in> set evs \<and> (\<forall>e \<in> set evs. key e = key ev \<longrightarrow> color e = color ev) \<longrightarrow>
            (\<forall>k < length (rows d). same_key ev (rows d ! k) \<longrightarrow>
               rows d' ! k = (rows d ! k)\<lparr>r_color := color ev\<rparr>))"
proof -
  from grown_reconcile [of evs d fails sched] assms
  have "grown evs d d'" by simp
  then have a: "length (rows d) \<le> length (rows d') \<and>
         (\<forall>k < length (rows d).
            rows d' ! k = (rows d ! k)\<lparr>r_color := r_color (rows d' ! k)\<rparr> \<and>
            (r_color (rows d' ! k) = r_color (rows d ! k) \<or>
             (\<exists>ev \<in> set evs. same_key ev (rows d ! k) \<and> r_color (rows d' ! k) = color ev))) \<and>
         (\<forall>r' \<in> set (drop (length (rows d)) (rows d')).
            \<exists>ev \<in> set evs. db_get d ev = None \<and> same_key ev r')"
    unfolding grown_def unchanged_but_color_def by simp
  have b: "\<forall>r' \<in> set (rows d'). same_key ev r' \<longrightarrow> r_color r' = color ev"
    if "settled (reconcile fails sched evs d)" "\<forall>i < length evs. \<not> fails i"
       "ev \<in> set evs" "\<forall>e \<in> set evs. key e = key ev \<longrightarrow> color e = color ev"
    using settled_colored [OF that(2,4,3,1)] assms by (simp add: colored_def)
  have c: "settled (reconcile fails sched evs d)"
    if "\<forall>i < length evs. 3 \<le> count_list sched i"
    using that by (rule three_turns_settle)
  have e: "rows d' ! k = (rows d ! k)\<lparr>r_color := color ev\<rparr>"
    if h: "\<forall>i < length evs. 3 \<le> count_list sched i \<and> \<not> fails i"
       "ev \<in> set evs" "\<forall>e \<in> set evs. key e = key ev \<longrightarrow> color e = color ev"
      and k: "k < length (rows d)" "same_key ev (rows d ! k)" for k
  proof -
    from h(1) have s: "settled (reconcile fails sched evs d)" and nf: "\<forall>i < length evs. \<not> fails i"
      by (auto intro: three_turns_settle)
    from a k have u: "rows d' ! k = (rows d ! k)\<lparr>r_color := r_color (rows d' ! k)\<rparr>"
      and kl: "k < length (rows d')" by auto
    from u have "unchanged_but_color (rows d ! k) (rows d' ! k)"
      by (simp add: unchanged_but_color_def)
    with k(2) have sk: "same_key ev (rows d' ! k)" by (simp add: same_key_unchanged)
    from kl have "rows d' ! k \<in> set (rows d')" by simp
    with b [OF s nf h(2,3)] sk have "r_color (rows d' ! k) = color ev" by blast
    with u show ?thesis by simp
  qed
  from a b c e show ?thesis by blast
qed

text \<open>
  A batch of two records, the turns of the two interleaved. The first record matches the row
  stored red with id 1 and is confirmed now, with another description and a location: the
  row is green, with the id and the description it had. The second record is new and is
  inserted with id 2.
\<close>

theorem matched_record_recolored_in_place_witness:
  "settled (reconcile (\<lambda>i. False) [1, 0, 0, 1, 1, 0]
         [\<lparr>title = ''[Sonarr] Show - 1x01'', start = ''2024-01-01T10:00:00'',
           end' = ''2024-01-01T11:00:00'', color = ''green'',
           description = ''Pilot (extended)'', location = ''HBO''\<rparr>,
          \<lparr>title = ''[Sonarr] Show - 1x02'', start = ''2024-01-08T10:00:00'',
           end' = ''2024-01-08T11:00:00'', color = ''red'',
           description = [], location = []\<rparr>]
         \<lparr>rows = [\<lparr>r_id = 1, r_title = ''[Sonarr] Show - 1x01'',
                    r_start = ''2024-01-01T10:00:00'', r_end = ''2024-01-01T11:00:00'',
                    r_color = ''red'', r_description = ''Pilot'', r_location = []\<rparr>],
          seq = 1\<rparr>) \<and>
   db (reconcile (\<lambda>i. False) [1, 0, 0, 1, 1, 0]
         [\<lparr>title = ''[Sonarr] Show - 1x01'', start = ''2024-01-01T10:00:00'',
           end' = ''2024-01-01T11:00:00'', color = ''green'',
           description = ''Pilot (extended)'', location = ''HBO''\<rparr>,
          \<lparr>title = ''[Sonarr] Show - 1x02'', start = ''2024-01-08T10:00:00'',
           end' = ''2024-01-08T11:00:00'', color = ''red'',
           description = [], location = []\<rparr>]
         \<lparr>rows = [\<lparr>r_id = 1, r_title = ''[Sonarr] Show - 1x01'',
                    r_start = ''2024-01-01T10:00:00'', r_end = ''2024-01-01T11:00:00'',
                    r_color = ''red'', r_description = ''Pilot'', r_location = []\<rparr>],
          seq = 1\<rparr>) =
     \<lparr>rows = [\<lparr>r_id = 1, r_title = ''[Sonarr] Show - 1x01'',
                r_start = ''2024-01-01T10:00:00'', r_end = ''2024-01-01T11:00:00'',
                r_color = ''green'', r_description = ''Pilot'', r_location = []\<rparr>,
               \<lparr>r_id = 2, r_title = ''[Sonarr] Show - 1x02'',
                r_start = ''2024-01-08T10:00:00'', r_end = ''2024-01-08T11:00:00'',
                r_color = ''red'', r_description = [], r_location = []\<rparr>],
      seq = 2\<rparr>"
proof -
  let ?ev = "\<lparr>title = ''[Sonarr] Show - 1x01'', start = ''2024-01-01T10:00:00'',
           end' = ''2024-01-01T11:00:00'', color = ''green'',
           description = ''Pilot (extended)'', location = ''HBO''\<rparr>"
  let ?evs = "[?ev,
          \<lparr>title = ''[Sonarr] Show - 1x02'', start = ''2024-01-08T10:00:00'',
           end' = ''2024-01-08T11:00:00'', color = ''red'',
           description = [], location = []\<rparr>]"
  let ?r = "\<lparr>r_id = 1, r_title = ''[Sonarr] Show - 1x01'',
                    r_start = ''2024-01-01T10:00:00'', r_end = ''2024-01-01T11:00:00'',
                    r_color = ''red'', r_description = ''Pilot'', r_location = []\<rparr>"
  let ?d = "\<lparr>rows = [?r], seq = 1\<rparr>"
  let ?sched = "[1, 0, 0, 1, 1, 0] :: nat list"
  let ?p = "reconcile (\<lambda>i. False) ?sched ?evs ?d"
  note all = matched_record_recolored_in_place
    [where fails = "\<lambda>i. False" and sched = ?sched and evs = ?evs and ev = ?ev and d = ?d,
     OF refl]
  have turns: "\<forall>i < length ?evs. 3 \<le> count_list ?sched i"
    by (simp add: less_Suc_eq)
  have hyps: "(\<forall>i < length ?evs. 3 \<le> count_list ?sched i \<and> \<not> (\<lambda>i. False) i) \<and>
      ?ev \<in> set ?evs \<and> (\<forall>e \<in> set ?evs. key e = key ?ev \<longrightarrow> color e = color ?ev)"
    by (simp add: less_Suc_eq key_def)
  from all [THEN conjunct2, THEN conjunct2, THEN conjunct2, THEN conjunct2, THEN conjunct1]
    turns
  have s: "settled ?p" by (rule mp)
  from all [THEN conjunct2, THEN conjunct2, THEN conjunct2, THEN conjunct2, THEN conjunct2]
    hyps
  have "\<forall>k < length (rows ?d). same_key ?ev (rows ?d ! k) \<longrightarrow>
               rows (db ?p) ! k = (rows ?d ! k)\<lparr>r_color := color ?ev\<rparr>" by (rule mp)
  then have first: "rows (db ?p) ! 0 = ?r\<lparr>r_color := ''green''\<rparr>"
    by (simp add: same_key_def)
  have "db ?p =
     \<lparr>rows = [?r\<lparr>r_color := ''green''\<rparr>,
               \<lparr>r_id = 2, r_title = ''[Sonarr] Show - 1x02'',
                r_start = ''2024-01-08T10:00:00'', r_end = ''2024-01-08T11:00:00'',
                r_color = ''red'', r_description = [], r_location = []\<rparr>],
      seq = 2\<rparr>"
    by (simp add: reconcile_def turn_def callback_def finalize_def db_get_def same_key_def
          stmtUpdate_run_def stmtInsert_run_def next_id_def)
  with s first show ?thesis by simp
qed

subsection \<open>Nothing is ever deleted\<close>

lemma kept_refl: "kept d d"
  by (simp add: kept_def unchanged_but_color_def)

lemma kept_trans: "kept a b \<Longrightarrow> kept b c \<Longrightarrow> kept a c"
  unfolding kept_def unchanged_but_color_iff by fastforce

lemma grown_kept: "grown evs d d' \<Longrightarrow> kept d d'"
  by (simp add: grown_def kept_def)

lemma kept_reconcile: "kept d (db (reconcile fails sched evs d))"
  by (rule grown_kept [OF grown_reconcile])

lemma kept_fetchAndStoreEvents:
  "kept d (stored (fetchAndStoreEvents axios_get ICAL_parse fails sched u prefix d))"
  by (auto simp: fetchAndStoreEvents_def Let_def kept_refl kept_reconcile
           split: prod.splits sum.splits option.splits)

lemma kept_execute: "kept d (execute w d)"
proof (cases w)
  case (RunInsert ev)
  then show ?thesis
    by (simp add: kept_def rows_insert nth_append unchanged_but_color_iff)
next
  case (RunUpdate ev)
  then show ?thesis
    by (simp add: kept_def rows_update unchanged_but_color_iff)
qed

lemma kept_turn: "kept (db p) (db (turn fails evs i p))"
  by (cases "stages p ! i") (simp_all add: db_turn kept_refl kept_execute)

lemma kept_happen: "kept (store (shared ps)) (store (shared (happen h ps)))"
proof (cases h)
  case (Start g P u prefix)
  then show ?thesis by (simp add: kept_refl split: option.splits)
next
  case (Turn k i f)
  show ?thesis
  proof (cases "k < length (inflight ps)")
    case False
    with Turn show ?thesis by (simp add: kept_refl)
  next
    case True
    obtain evs p where ep: "inflight ps ! k = (evs, p)" by (cases "inflight ps ! k")
    from kept_turn [of "p\<lparr>db := store (shared ps)\<rparr>" "\<lambda>j. f" evs i]
    show ?thesis using Turn True ep by (simp add: Let_def)
  qed
next
  case (Arrive qs qe now later err)
  then show ?thesis by (simp add: store_events_json kept_refl)
qed

lemma kept_happenAll: "kept (store (shared ps)) (store (shared (happenAll hs ps)))"
proof (induction hs arbitrary: ps)
  case Nil
  show ?case by (simp add: kept_refl)
next
  case (Cons h hs)
  from kept_trans [OF kept_happen Cons.IH] show ?case by simp
qed

lemma kept_row:
  assumes "kept d d'" and "r \<in> set (rows d)"
  shows "\<exists>r' \<in> set (rows d').
            r_id r' = r_id r \<and> r_title r' = r_title r \<and> r_start r' = r_start r \<and>
            r_end r' = r_end r \<and> r_description r' = r_description r \<and>
            r_location r' = r_location r"
proof -
  from assms(2) obtain k where k: "k < length (rows d)" "rows d ! k = r"
    by (auto simp: in_set_conv_nth)
  with assms(1) have "k < length (rows d')" and "unchanged_but_color r (rows d' ! k)"
    by (auto simp: kept_def)
  then show ?thesis
    by (auto simp: unchanged_but_color_iff intro!: bexI [of _ "rows d' ! k"])
qed

text \<open>
  C9. Whatever happens in whatever order (passes started, turns of any pass in flight
  interleaved with those of the others, requests, failures of the network, the parser or
  the lookups), a row that is stored is still stored afterwards, with the same id, title,
  start, end, description and location; only its color may have changed. The same holds of
  every single turn of a pass, from every pass state. A request leaves the table exactly
  as it was, and so does the start of a pass.
\<close>

theorem records_never_deleted:
  "(r \<in> set (rows (store (shared ps))) \<longrightarrow>
      (\<exists>r' \<in> set (rows (store (shared (happenAll hs ps)))).
          r_id r' = r_id r \<and> r_title r' = r_title r \<and> r_start r' = r_start r \<and>
          r_end r' = r_end r \<and> r_description r' = r_description r \<and>
          r_location r' = r_location r)) \<and>
   (r \<in> set (rows (db p)) \<longrightarrow>
      (\<exists>r' \<in> set (rows (db (turn fails evs i p))).
          r_id r' = r_id r \<and> r_title r' = r_title r \<and> r_start r' = r_start r \<and>
          r_end r' = r_end r \<and> r_description r' = r_description r \<and>
          r_location r' = r_location r)) \<and>
   store (shared (happen (Arrive qstart qend now later err) ps)) = store (shared ps) \<and>
   store (shared (happen (Start axios_get ICAL_parse u prefix) ps)) = store (shared ps)"
proof (intro conjI impI)
  assume "r \<in> set (rows (store (shared ps)))"
  with kept_happenAll [of ps hs]
  show "\<exists>r' \<in> set (rows (store (shared (happenAll hs ps)))).
          r_id r' = r_id r \<and> r_title r' = r_title r \<and> r_start r' = r_start r \<and>
          r_end r' = r_end r \<and> r_description r' = r_description r \<and>
          r_location r' = r_location r"
    by (rule kept_row)
next
  assume "r \<in> set (rows (db p))"
  with kept_turn [of p fails evs i]
  show "\<exists>r' \<in> set (rows (db (turn fails evs i p))).
          r_id r' = r_id r \<and> r_title r' = r_title r \<and> r_start r' = r_start r \<and>
          r_end r' = r_end r \<and> r_description r' = r_description r \<and>
          r_location r' = r_location r"
    by (rule kept_row)
next
  show "store (shared (happen (Arrive qstart qend now later err) ps)) = store (shared ps)"
    by (simp add: store_events_json)
next
  show "store (shared (happen (Start axios_get ICAL_parse u prefix) ps)) = store (shared ps)"
    by (simp split: option.splits)
qed

text \<open>
  Two passes of the same source in flight together, and a request between their turns: the
  row with id 7 is still there.
\<close>

theorem records_never_deleted_witness:
  "(\<exists>r' \<in> set (rows (store (shared (happenAll
        [Start (\<lambda>u n. Inr ''BEGIN:VCALENDAR'')
           (\<lambda>doc. Inr [\<lparr>summary = Some ''Show - 1x01'',
                         startDate = Some ''2024-01-01T10:00:00'',
                         endDate = Some ''2024-01-01T11:00:00'', status = Some ''CONFIRMED'',
                         v_description = None, v_location = None\<rparr>,
                        \<lparr>summary = Some ''Show - 1x02'',
                         startDate = Some ''2024-01-08T10:00:00'',
                         endDate = Some ''2024-01-08T11:00:00'', status = None,
                         v_description = None, v_location = None\<rparr>])
           ''http://sonarr/feed.ics'' ''Sonarr'',
         Start (\<lambda>u n. Inr ''BEGIN:VCALENDAR'')
           (\<lambda>doc. Inr [\<lparr>summary = Some ''Show - 1x01'',
                         startDate = Some ''2024-01-01T10:00:00'',
                         endDate = Some ''2024-01-01T11:00:00'', status = Some ''CONFIRMED'',
                         v_description = None, v_location = None\<rparr>,
                        \<lparr>summary = Some ''Show - 1x02'',
                         startDate = Some ''2024-01-08T10:00:00'',
                         endDate = Some ''2024-01-08T11:00:00'', status = None,
                         v_description = None, v_location = None\<rparr>])
           ''http://sonarr/feed.ics'' ''Sonarr'',
         Turn 0 0 False, Turn 0 1 False, Turn 1 0 False, Turn 1 1 False,
         Turn 0 0 False, Turn 0 1 False, Turn 1 0 False, Turn 1 1 False,
         Arrive (Some ''2024-01-01T00:00'') (Some ''2024-01-31T23:59'') 5 7 False,
         Turn 0 0 False, Turn 0 1 False, Turn 1 0 False, Turn 1 1 False]
        \<lparr>shared = \<lparr>store = \<lparr>rows = [\<lparr>r_id = 7, r_title = ''[Sonarr] Show - 1x01'',
                                         r_start = ''2024-01-01T10:00:00'',
                                         r_end = ''2024-01-01T11:00:00'',
                                         r_color = ''red'', r_description = ''old text'',
                                         r_location = []\<rparr>],
                              seq = 7\<rparr>,
                     cache = Map.empty\<rparr>,
         inflight = []\<rparr>)))).
      r_id r' = 7 \<and> r_title r' = ''[Sonarr] Show - 1x01'' \<and>
      r_start r' = ''2024-01-01T10:00:00'' \<and> r_end r' = ''2024-01-01T11:00:00'' \<and>
      r_description r' = ''old text'' \<and> r_location r' = [])"
proof -
  note t = records_never_deleted
    [where r = "\<lparr>r_id = 7, r_title = ''[Sonarr] Show - 1x01'',
                             r_start = ''2024-01-01T10:00:00'',
                             r_end = ''2024-01-01T11:00:00'',
                             r_color = ''red'', r_description = ''old text'',
                             r_location = []\<rparr>"
       and ps = "\<lparr>shared = \<lparr>store = \<lparr>rows = [\<lparr>r_id = 7, r_title = ''[Sonarr] Show - 1x01'',
                                         r_start = ''2024-01-01T10:00:00'',
                                         r_end = ''2024-01-01T11:00:00'',
                                         r_color = ''red'', r_description = ''old text'',
                                         r_location = []\<rparr>],
                              seq = 7\<rparr>,
                     cache = Map.empty\<rparr>,
         inflight = []\<rparr>"
       and hs = "[Start (\<lambda>u n. Inr ''BEGIN:VCALENDAR'')
           (\<lambda>doc. Inr [\<lparr>summary = Some ''Show - 1x01'',
                         startDate = Some ''2024-01-01T10:00:00'',
                         endDate = Some ''2024-01-01T11:00:00'', status = Some ''CONFIRMED'',
                         v_description = None, v_location = None\<rparr>,
                        \<lparr>summary = Some ''Show - 1x02'',
                         startDate = Some ''2024-01-08T10:00:00'',
                         endDate = Some ''2024-01-08T11:00:00'', status = None,
                         v_description = None, v_location = None\<rparr>])
           ''http://sonarr/feed.ics'' ''Sonarr'',
         Start (\<lambda>u n. Inr ''BEGIN:VCALENDAR'')
           (\<lambda>doc. Inr [\<lparr>summary = Some ''Show - 1x01'',
                         startDate = Some ''2024-01-01T10:00:00'',
                         endDate = Some ''2024-01-01T11:00:00'', status = Some ''CONFIRMED'',
                         v_description = None, v_location = None\<rparr>,
                        \<lparr>summary = Some ''Show - 1x02'',
                         startDate = Some ''2024-01-08T10:00:00'',
                         endDate = Some ''2024-01-08T11:00:00'', status = None,
                         v_description = None, v_location = None\<rparr>])
           ''http://sonarr/feed.ics'' ''Sonarr'',
         Turn 0 0 False, Turn 0 1 False, Turn 1 0 False, Turn 1 1 False,
         Turn 0 0 False, Turn 0 1 False, Turn 1 0 False, Turn 1 1 False,
         Arrive (Some ''2024-01-01T00:00'') (Some ''2024-01-31T23:59'') 5 7 False,
         Turn 0 0 False, Turn 0 1 False, Turn 1 0 False, Turn 1 1 False]"
     , THEN conjunct1, THEN mp]


  show ?thesis
    by (rule t [simplified row.select_convs]) simp
qed

subsection \<open>A pass alone, and passes that overlap\<close>

text \<open>
  A pass that is started with no other pass in flight and takes its turns with no other
  pass started in between leaves the table that \<open>fetchAndStoreEvents\<close> computes under the
  same schedule.
\<close>

lemma turn_core:
  assumes "db q = db p" and "stages q = stages p"
  shows "db (turn fails evs i q) = db (turn fails evs i p)"
    and "stages (turn fails evs i q) = stages (turn fails evs i p)"
  using assms by (auto simp: db_turn stages_turn split: stage.splits)

lemma eventLoop_core:
  assumes "db q = db p" and "stages q = stages p"
  shows "db (eventLoop fails evs sched q) = db (eventLoop fails evs sched p)"
  using assms
proof (induction sched arbitrary: p q)
  case Nil
  then show ?case by simp
next
  case (Cons i sched)
  from Cons.IH [OF turn_core [OF Cons.prems]] show ?case by simp
qed

lemma reconcile_eventLoop:
  "reconcile fails sched evs d = eventLoop fails evs sched (reconcile fails2 [] evs d)"
  by (simp add: reconcile_def Let_def)

lemma beginPass_None:
  assumes "beginPass axios_get ICAL_parse u prefix d = None"
  shows "stored (fetchAndStoreEvents axios_get ICAL_parse fails sched u prefix d) = d"
  using assms
  by (auto simp: beginPass_def fetchAndStoreEvents_def Let_def
           split: prod.splits sum.splits option.splits)

lemma beginPass_Some:
  assumes "beginPass axios_get ICAL_parse u prefix d = Some (evs, p)"
  shows "db p = d"
    and "stored (fetchAndStoreEvents axios_get ICAL_parse fails sched u prefix d) =
           db (eventLoop fails evs sched p)"
proof -
  from assms obtain fx where p: "p = (reconcile (\<lambda>i. False) [] evs d)\<lparr>console := fx\<rparr>"
    and f: "stored (fetchAndStoreEvents axios_get ICAL_parse fails sched u prefix d) =
              db (reconcile fails sched evs d)"
    by (auto simp: beginPass_def fetchAndStoreEvents_def Let_def
             split: prod.splits sum.splits option.splits)
  from p show "db p = d" by (simp add: reconcile_def Let_def finalize_def)
  from p have "db (eventLoop fails evs sched p) =
          db (eventLoop fails evs sched (reconcile (\<lambda>i. False) [] evs d))"
    by (intro eventLoop_core) simp_all
  with f reconcile_eventLoop [of fails sched evs d "\<lambda>i. False"]
  show "stored (fetchAndStoreEvents axios_get ICAL_parse fails sched u prefix d) =
           db (eventLoop fails evs sched p)" by simp
qed

lemma alone_turns:
  assumes "inflight ps = [(evs, p)]" and "db p = store (shared ps)"
  shows "store (shared (happenAll (map (\<lambda>i. Turn 0 i f) sched) ps)) =
           db (eventLoop (\<lambda>j. f) evs sched p)"
  using assms
proof (induction sched arbitrary: ps p)
  case Nil
  then show ?case by simp
next
  case (Cons i sched)
  let ?q = "turn (\<lambda>j. f) evs i p"
  let ?ps = "happen (Turn 0 i f) ps"
  from Cons.prems(2) have e: "p\<lparr>db := store (shared ps)\<rparr> = p" by simp
  from Cons.prems(1) have "?ps =
      ps\<lparr>shared := (shared ps)\<lparr>store := db (turn (\<lambda>j. f) evs i (p\<lparr>db := store (shared ps)\<rparr>))\<rparr>,
         inflight := [(evs, turn (\<lambda>j. f) evs i (p\<lparr>db := store (shared ps)\<rparr>))]\<rparr>"
    by (simp add: Let_def)
  then have "?ps = ps\<lparr>shared := (shared ps)\<lparr>store := db ?q\<rparr>, inflight := [(evs, ?q)]\<rparr>"
    by (simp only: e)
  then have "inflight ?ps = [(evs, ?q)]" "db ?q = store (shared ?ps)" by simp_all
  from Cons.IH [OF this] show ?case by simp
qed

theorem pass_alone:
  assumes "inflight ps = []"
  shows "store (shared (happenAll
            (Start axios_get ICAL_parse u prefix # map (\<lambda>i. Turn 0 i f) sched) ps)) =
         stored (fetchAndStoreEvents axios_get ICAL_parse (\<lambda>j. f) sched u prefix
                   (store (shared ps)))"
proof (cases "beginPass axios_get ICAL_parse u prefix (store (shared ps))")
  case None
  have idle: "store (shared (happenAll (map (\<lambda>i. Turn 0 i f) sched) ps)) = store (shared ps)"
    using assms by (induction sched) simp_all
  from None idle beginPass_None [OF None] show ?thesis by simp
next
  case (Some started)
  obtain evs p where ep: "started = (evs, p)" by (cases started)
  let ?ps = "ps\<lparr>inflight := [(evs, p)]\<rparr>"
  from Some ep beginPass_Some [of axios_get ICAL_parse u prefix "store (shared ps)" evs p]
  have dbp: "db p = store (shared ps)"
    and f: "stored (fetchAndStoreEvents axios_get ICAL_parse (\<lambda>j. f) sched u prefix
              (store (shared ps))) = db (eventLoop (\<lambda>j. f) evs sched p)"
    by simp_all
  have "inflight ?ps = [(evs, p)]" "db p = store (shared ?ps)" using dbp by simp_all
  from alone_turns [OF this, of f sched] Some ep assms f show ?thesis by simp
qed

text \<open>
  Two passes over the same one-record feed that overlap on the empty table: both SELECTs
  are executed before either INSERT, and the record is stored twice.
\<close>

lemma overlapping_passes_store_twice:
  "rows (store (shared (happenAll
        [Start (\<lambda>u n. Inr ''BEGIN:VCALENDAR'')
           (\<lambda>doc. Inr [\<lparr>summary = Some ''Show - 1x02'',
                         startDate = Some ''2024-01-08T10:00:00'',
                         endDate = Some ''2024-01-08T11:00:00'', status = None,
                         v_description = None, v_location = None\<rparr>])
           ''http://sonarr/feed.ics'' ''Sonarr'',
         Start (\<lambda>u n. Inr ''BEGIN:VCALENDAR'')
           (\<lambda>doc. Inr [\<lparr>summary = Some ''Show - 1x02'',
                         startDate = Some ''2024-01-08T10:00:00'',
                         endDate = Some ''2024-01-08T11:00:00'', status = None,
                         v_description = None, v_location = None\<rparr>])
           ''http://sonarr/feed.ics'' ''Sonarr'',
         Turn 0 0 False, Turn 1 0 False, Turn 0 0 False, Turn 1 0 False,
         Turn 0 0 False, Turn 1 0 False]
        \<lparr>shared = \<lparr>store = \<lparr>rows = [], seq = 0\<rparr>, cache = Map.empty\<rparr>,
         inflight = []\<rparr>))) =
     [\<lparr>r_id = 1, r_title = ''[Sonarr] Show - 1x02'', r_start = ''2024-01-08T10:00:00'',
       r_end = ''2024-01-08T11:00:00'', r_color = ''red'', r_description = [],
       r_location = []\<rparr>,
      \<lparr>r_id = 2, r_title = ''[Sonarr] Show - 1x02'', r_start = ''2024-01-08T10:00:00'',
       r_end = ''2024-01-08T11:00:00'', r_color = ''red'', r_description = [],
       r_location = []\<rparr>]"
  by (simp add: beginPass_def fetchWithRetries_first normalizeVevent_def js_string_def
        or_empty_def reconcile_def turn_def callback_def finalize_def db_get_def same_key_def
        stmtInsert_run_def next_id_def Let_def)

subsection \<open>One row per identity key\<close>

lemma deduplicatingI:
  assumes "one_per_key (db q)"
    and "\<And>i. i < length evs \<Longrightarrow> i < length (stages q) \<Longrightarrow>
           run_ok (evs ! i) (stages q ! i) \<and>
           (pending_insert (stages q ! i) \<longrightarrow> db_get (db q) (evs ! i) = None)"
  shows "deduplicating evs q"
  using assms unfolding deduplicating_def by blast

lemma deduplicatingD:
  assumes "deduplicating evs p" and "i < length evs" and "i < length (stages p)"
  shows "run_ok (evs ! i) (stages p ! i)"
    and "pending_insert (stages p ! i) \<Longrightarrow> db_get (db p) (evs ! i) = None"
  using assms unfolding deduplicating_def by blast+

lemma deduplicating_turn:
  assumes dist: "distinct (map key evs)" and inv: "deduplicating evs p"
  shows "deduplicating evs (turn fails evs j p)"
proof (cases "j < length evs \<and> j < length (stages p)")
  case False
  then have "turn fails evs j p = p" by (auto simp: turn_def)
  with inv show ?thesis by simp
next
  case True
  let ?e = "evs ! j" and ?st = "stages p ! j"
  let ?n = "next_stage fails j ?e (db p) ?st"
  let ?q = "turn fails evs j p"
  have st': "stages ?q = (stages p)[j := ?n]"
    using True by (simp add: stages_turn)
  from inv have opk: "one_per_key (db p)" by (simp add: deduplicating_def)
  from deduplicatingD [OF inv] True have wf: "run_ok ?e ?st"
    and pj: "pending_insert ?st \<Longrightarrow> db_get (db p) ?e = None"
    by blast+
  have others: "key (evs ! i) \<noteq> key ?e" if "i < length evs" "i \<noteq> j" for i
    using that True dist by (auto simp: distinct_conv_nth)
  have nth: "stages ?q ! i = (if i = j then ?n else stages p ! i)" if "i < length (stages p)" for i
    using that by (simp add: st' nth_list_update)
  show ?thesis
  proof (cases ?st)
    case Issued
    then have dbs: "db ?q = db p" using True by (simp add: db_turn)
    have pn: "pending_insert ?n \<longrightarrow> db_get (db p) ?e = None"
      using Issued by (cases "db_get (db p) ?e") auto
    have rn: "run_ok ?e ?n" using Issued by simp
    show ?thesis
    proof (rule deduplicatingI)
      show "one_per_key (db ?q)" using opk dbs by simp
    next
      fix i assume i: "i < length evs" "i < length (stages ?q)"
      then show "run_ok (evs ! i) (stages ?q ! i) \<and>
           (pending_insert (stages ?q ! i) \<longrightarrow> db_get (db ?q) (evs ! i) = None)"
        using pn rn deduplicatingD [OF inv, of i] dbs nth [of i]
        by (cases "i = j") auto
    qed
  next
    case (Returned res)
    then have dbs: "db ?q = db p" using True by (simp add: db_turn)
    have "(pending_insert ?n \<longrightarrow> pending_insert ?st) \<and> run_ok ?e ?n"
    proof (cases res)
      case LookupErr
      with Returned show ?thesis by simp
    next
      case (LookupRow ro)
      with Returned show ?thesis by (cases ro) simp_all
    qed
    then have pn: "pending_insert ?n \<longrightarrow> pending_insert ?st" and rn: "run_ok ?e ?n"
      by simp_all
    show ?thesis
    proof (rule deduplicatingI)
      show "one_per_key (db ?q)" using opk dbs by simp
    next
      fix i assume i: "i < length evs" "i < length (stages ?q)"
      then show "run_ok (evs ! i) (stages ?q ! i) \<and>
           (pending_insert (stages ?q ! i) \<longrightarrow> db_get (db ?q) (evs ! i) = None)"
        using pn rn pj deduplicatingD [OF inv, of i] dbs nth [of i]
        by (cases "i = j") auto
    qed
  next
    case (Queued w)
    then have dbs: "db ?q = execute w (db p)" using True by (simp add: db_turn)
    from Queued have n: "?n = Done" by simp
    from wf Queued have "w = RunInsert ?e \<or> w = RunUpdate ?e" by simp
    then show ?thesis
    proof
      assume w: "w = RunInsert ?e"
      with Queued pj have none: "db_get (db p) ?e = None" by simp
      show ?thesis
      proof (rule deduplicatingI)
        show "one_per_key (db ?q)" using w dbs none opk by (simp add: one_per_key_insert)
      next
        fix i assume i: "i < length evs" "i < length (stages ?q)"
        show "run_ok (evs ! i) (stages ?q ! i) \<and>
           (pending_insert (stages ?q ! i) \<longrightarrow> db_get (db ?q) (evs ! i) = None)"
        proof (cases "i = j")
          case True
          with i n show ?thesis by (simp add: nth)
        next
          case False
          with i others [of i] deduplicatingD [OF inv, of i] w dbs show ?thesis
            by (simp add: nth db_get_insert)
        qed
      qed
    next
      assume w: "w = RunUpdate ?e"
      show ?thesis
      proof (rule deduplicatingI)
        show "one_per_key (db ?q)" using w dbs opk by (simp add: one_per_key_update)
      next
        fix i assume i: "i < length evs" "i < length (stages ?q)"
        show "run_ok (evs ! i) (stages ?q ! i) \<and>
           (pending_insert (stages ?q ! i) \<longrightarrow> db_get (db ?q) (evs ! i) = None)"
        proof (cases "i = j")
          case True
          with i n show ?thesis by (simp add: nth)
        next
          case False
          with i deduplicatingD [OF inv, of i] w dbs show ?thesis
            by (simp add: nth db_get_update)
        qed
      qed
    qed
  next
    case Done
    then have "db ?q = db p" "stages ?q = stages p"
      using True list_update_id [of "stages p" j] by (simp_all add: db_turn st')
    with inv show ?thesis by (simp add: deduplicating_def)
  qed
qed

lemma one_per_key_reconcile:
  assumes "distinct (map key evs)" and "one_per_key d"
  shows "one_per_key (db (reconcile fails sched evs d))"
proof -
  have "deduplicating evs (reconcile fails sched evs d)"
    unfolding reconcile_def Let_def
    by (rule eventLoop_invariant [where I = "deduplicating evs"])
       (use assms deduplicating_turn in \<open>auto simp: deduplicating_def finalize_def\<close>)
  then show ?thesis by (simp add: deduplicating_def)
qed

lemma storing_turn:
  assumes nofail: "\<forall>i < length evs. \<not> fails i" and inv: "storing evs p"
  shows "storing evs (turn fails evs j p)"
proof (cases "j < length evs \<and> j < length (stages p)")
  case False
  then have "turn fails evs j p = p" by (auto simp: turn_def)
  with inv show ?thesis by simp
next
  case True
  let ?e = "evs ! j" and ?st = "stages p ! j"
  let ?n = "next_stage fails j ?e (db p) ?st"
  let ?q = "turn fails evs j p"
  from nofail True have nf: "\<not> fails j" by simp
  from inv True have wf: "wellformed ?e ?st"
    and fj: "found ?st \<longrightarrow> db_get (db p) ?e \<noteq> None"
    by (auto simp: storing_def)
  have nth: "stages ?q ! i = (if i = j then ?n else stages p ! i)" if "i < length (stages p)" for i
    using that True by (simp add: stages_turn nth_list_update)
  have mono: "db_get (db ?q) ev \<noteq> None" if "db_get (db p) ev \<noteq> None" for ev
    using that True by (cases ?st) (simp_all add: db_turn db_get_execute)
  have new: "wellformed ?e ?n \<and> (found ?n \<longrightarrow> db_get (db ?q) ?e \<noteq> None)"
  proof (cases ?st)
    case Issued
    with nf mono show ?thesis by (cases "db_get (db p) ?e") auto
  next
    case (Returned res)
    show ?thesis
    proof (cases res)
      case LookupErr
      with Returned wf show ?thesis by simp
    next
      case (LookupRow ro)
      with Returned fj mono show ?thesis by (cases ro) auto
    qed
  next
    case (Queued w)
    with wf have "w = RunInsert ?e \<or> w = RunUpdate ?e" by simp
    then show ?thesis
    proof
      assume "w = RunInsert ?e"
      with Queued True show ?thesis by (simp add: db_turn db_get_insert)
    next
      assume "w = RunUpdate ?e"
      with Queued fj mono show ?thesis by simp
    qed
  next
    case Done
    with fj mono show ?thesis by simp
  qed
  have "wellformed (evs ! i) (stages ?q ! i) \<and>
         (found (stages ?q ! i) \<longrightarrow> db_get (db ?q) (evs ! i) \<noteq> None)"
    if "i < length evs" "i < length (stages ?q)" for i
  proof (cases "i = j")
    case True
    with that new show ?thesis by (simp add: nth)
  next
    case False
    with that inv mono [of "evs ! i"] show ?thesis by (simp add: nth storing_def)
  qed
  then show ?thesis unfolding storing_def by blast
qed

lemma settled_stored:
  assumes "\<forall>i < length evs. \<not> fails i"
    and "ev \<in> set evs"
    and "settled (reconcile fails sched evs d)"
  shows "db_get (db (reconcile fails sched evs d)) ev \<noteq> None"
proof -
  let ?p = "reconcile fails sched evs d"
  have inv: "storing evs ?p"
    unfolding reconcile_def Let_def
    by (rule eventLoop_invariant [where I = "storing evs"])
       (use assms(1) storing_turn in \<open>auto simp: storing_def finalize_def\<close>)
  from assms(2) obtain i where i: "i < length evs" "evs ! i = ev"
    by (auto simp: in_set_conv_nth)
  with assms(3) have "stages ?p ! i = Done"
    by (simp add: settled_def list_all_length)
  with inv i show ?thesis by (auto simp: storing_def)
qed

lemma reconcile_again:
  assumes "\<forall>ev \<in> set evs. db_get d ev \<noteq> None \<and> colored ev d"
  shows "db (reconcile fails sched evs d) = d"
proof -
  let ?I = "\<lambda>q. db q = d \<and>
     (\<forall>i < length evs. i < length (stages q) \<longrightarrow> stage_ok d (evs ! i) (stages q ! i))"
  have step: "?I (turn fails evs j q)" if q: "?I q" for j q
  proof -
    from q have g: "grown evs d (db q)" by (simp add: grown_refl)
    from grown_turn [OF g, of fails j] q
    have s: "\<forall>i < length evs. i < length (stages (turn fails evs j q)) \<longrightarrow>
             stage_ok d (evs ! i) (stages (turn fails evs j q) ! i)" by blast
    have "db (turn fails evs j q) = d"
    proof (cases "j < length evs \<and> j < length (stages q)")
      case False
      then have "turn fails evs j q = q" by (auto simp: turn_def)
      with q show ?thesis by simp
    next
      case True
      then have mem: "evs ! j \<in> set evs" by simp
      show ?thesis
      proof (cases "stages q ! j")
        case (Queued w)
        with q True have "stage_ok d (evs ! j) (Queued w)" by auto
        with assms mem have "w = RunUpdate (evs ! j)" by auto
        with Queued True q assms mem show ?thesis
          by (simp add: db_turn update_colored)
      qed (use q True in \<open>simp_all add: db_turn\<close>)
    qed
    with s show ?thesis by blast
  qed
  have "?I (reconcile fails sched evs d)"
    unfolding reconcile_def Let_def
    by (rule eventLoop_invariant [where I = ?I]) (use step in \<open>auto simp: finalize_def\<close>)
  then show ?thesis by simp
qed

text \<open>
  For a batch whose identity keys are pairwise distinct and a table with at most one row per
  key, a pass that runs alone does what the lookup is there for, under every schedule: after
  a pass that settled without lookup failure the table has at most one row per key, one for
  every record of the batch and with its color, and reconciling the same batch again, alone
  and under any schedule, leaves the table exactly as it is.
\<close>

theorem distinct_batch_reconciled_once:
  assumes "distinct (map key evs)" and "one_per_key d"
    and "\<forall>i < length evs. \<not> fails i"
    and "settled (reconcile fails sched evs d)"
    and "d1 = db (reconcile fails sched evs d)"
  shows "one_per_key d1 \<and>
         (\<forall>ev \<in> set evs. \<exists>r \<in> set (rows d1). same_key ev r \<and> r_color r = color ev) \<and>
         db (reconcile fails2 sched2 evs d1) = d1"
proof -
  have 1: "one_per_key d1"
    using one_per_key_reconcile [OF assms(1,2)] assms(5) by simp
  have cons: "\<forall>e \<in> set evs. key e = key ev \<longrightarrow> color e = color ev" if "ev \<in> set evs" for ev
  proof -
    from assms(1) have "inj_on key (set evs)" by (simp add: distinct_map)
    with that show ?thesis by (auto dest: inj_onD)
  qed
  have 2: "db_get d1 ev \<noteq> None \<and> colored ev d1" if "ev \<in> set evs" for ev
    using settled_stored [OF assms(3) that assms(4)]
      settled_colored [OF assms(3) cons [OF that] that assms(4)] assms(5) by simp
  have 3: "\<exists>r \<in> set (rows d1). same_key ev r \<and> r_color r = color ev" if "ev \<in> set evs" for ev
  proof -
    from 2 [OF that] obtain r where "r \<in> set (rows d1)" "same_key ev r"
      by (auto simp: db_get_None)
    with 2 [OF that] show ?thesis by (auto simp: colored_def)
  qed
  from 2 have "\<forall>ev \<in> set evs. db_get d1 ev \<noteq> None \<and> colored ev d1" by blast
  from reconcile_again [OF this] 1 3 show ?thesis by blast
qed

theorem distinct_batch_reconciled_once_witness:
  "db (reconcile (\<lambda>i. False) [1, 0, 1, 0, 1, 0]
         [\<lparr>title = ''[Sonarr] Show - 1x01'', start = ''2024-01-01T10:00:00'',
           end' = ''2024-01-01T11:00:00'', color = ''green'',
           description = [], location = []\<rparr>,
          \<lparr>title = ''[Sonarr] Show - 1x02'', start = ''2024-01-08T10:00:00'',
           end' = ''2024-01-08T11:00:00'', color = ''red'',
           description = [], location = []\<rparr>]
         \<lparr>rows = [\<lparr>r_id = 1, r_title = ''[Sonarr] Show - 1x01'',
                    r_start = ''2024-01-01T10:00:00'', r_end = ''2024-01-01T11:00:00'',
                    r_color = ''green'', r_description = [], r_location = []\<rparr>,
                   \<lparr>r_id = 2, r_title = ''[Sonarr] Show - 1x02'',
                    r_start = ''2024-01-08T10:00:00'', r_end = ''2024-01-08T11:00:00'',
                    r_color = ''red'', r_description = [], r_location = []\<rparr>],
          seq = 2\<rparr>) =
     \<lparr>rows = [\<lparr>r_id = 1, r_title = ''[Sonarr] Show - 1x01'',
                r_start = ''2024-01-01T10:00:00'', r_end = ''2024-01-01T11:00:00'',
                r_color = ''green'', r_description = [], r_location = []\<rparr>,
               \<lparr>r_id = 2, r_title = ''[Sonarr] Show - 1x02'',
                r_start = ''2024-01-08T10:00:00'', r_end = ''2024-01-08T11:00:00'',
                r_color = ''red'', r_description = [], r_location = []\<rparr>],
      seq = 2\<rparr>"
proof -
  let ?evs = "[\<lparr>title = ''[Sonarr] Show - 1x01'', start = ''2024-01-01T10:00:00'',
           end' = ''2024-01-01T11:00:00'', color = ''green'',
           description = [], location = []\<rparr>,
          \<lparr>title = ''[Sonarr] Show - 1x02'', start = ''2024-01-08T10:00:00'',
           end' = ''2024-01-08T11:00:00'', color = ''red'',
           description = [], location = []\<rparr>]"
  let ?d1 = "\<lparr>rows = [\<lparr>r_id = 1, r_title = ''[Sonarr] Show - 1x01'',
                    r_start = ''2024-01-01T10:00:00'', r_end = ''2024-01-01T11:00:00'',
                    r_color = ''green'', r_description = [], r_location = []\<rparr>,
                   \<lparr>r_id = 2, r_title = ''[Sonarr] Show - 1x02'',
                    r_start = ''2024-01-08T10:00:00'', r_end = ''2024-01-08T11:00:00'',
                    r_color = ''red'', r_description = [], r_location = []\<rparr>],
          seq = 2\<rparr>"
  let ?p = "reconcile (\<lambda>i. False) [0, 1, 0, 1, 0, 1] ?evs \<lparr>rows = [], seq = 0\<rparr>"
  have a: "distinct (map key ?evs)" by (simp add: key_def)
  have b: "one_per_key \<lparr>rows = [], seq = 0\<rparr>" by (simp add: one_per_key_def)
  have c: "\<forall>i < length ?evs. \<not> (\<lambda>i. False) i" by simp
  have d: "settled ?p"
    by (simp add: settled_def reconcile_def turn_def callback_def finalize_def db_get_def
          same_key_def)
  have e: "?d1 = db ?p"
    by (simp add: reconcile_def turn_def callback_def finalize_def db_get_def same_key_def
          stmtInsert_run_def next_id_def)
  from distinct_batch_reconciled_once [OF a b c d e, of "\<lambda>i. False" "[1, 0, 1, 0, 1, 0]"]
  show ?thesis by simp
qed

text \<open>
  C1. Two records of one batch with the same identity key, reconciled against the empty
  table. \<^verbatim>\<open>forEach\<close> issues both SELECTs before any callback can run; neither finds
  a row, so both callbacks queue an INSERT (turns 0, 1 of the schedule are the SELECTs, the
  next two the callbacks, the last two the INSERTs). The settled pass leaves two rows with
  one identity key, and no later pass over the same batch, under any schedule, brings the
  table back to one row per key: the table violates what the lookup before each write is
  there to guarantee.
\<close>

theorem duplicate_key_batch_stored_twice:
  "db (reconcile (\<lambda>i. False) [0, 1, 0, 1, 0, 1] [ev, ev] \<lparr>rows = [], seq = 0\<rparr>) =
     \<lparr>rows = [\<lparr>r_id = 1, r_title = title ev, r_start = start ev, r_end = end' ev,
                r_color = color ev, r_description = description ev, r_location = location ev\<rparr>,
               \<lparr>r_id = 2, r_title = title ev, r_start = start ev, r_end = end' ev,
                r_color = color ev, r_description = description ev, r_location = location ev\<rparr>],
      seq = 2\<rparr> \<and>
   settled (reconcile (\<lambda>i. False) [0, 1, 0, 1, 0, 1] [ev, ev] \<lparr>rows = [], seq = 0\<rparr>) \<and>
   \<not> one_per_key (db (reconcile (\<lambda>i. False) [0, 1, 0, 1, 0, 1] [ev, ev] \<lparr>rows = [], seq = 0\<rparr>)) \<and>
   \<not> one_per_key (db (reconcile fails2 sched2 [ev, ev]
       (db (reconcile (\<lambda>i. False) [0, 1, 0, 1, 0, 1] [ev, ev] \<lparr>rows = [], seq = 0\<rparr>))))"
proof -
  let ?d1 = "db (reconcile (\<lambda>i. False) [0, 1, 0, 1, 0, 1] [ev, ev] \<lparr>rows = [], seq = 0\<rparr>)"
  have 1: "?d1 =
     \<lparr>rows = [\<lparr>r_id = 1, r_title = title ev, r_start = start ev, r_end = end' ev,
                r_color = color ev, r_description = description ev, r_location = location ev\<rparr>,
               \<lparr>r_id = 2, r_title = title ev, r_start = start ev, r_end = end' ev,
                r_color = color ev, r_description = description ev, r_location = location ev\<rparr>],
      seq = 2\<rparr>"
    by (simp add: reconcile_def turn_def callback_def finalize_def db_get_def same_key_def
          stmtInsert_run_def next_id_def)
  have 2: "settled (reconcile (\<lambda>i. False) [0, 1, 0, 1, 0, 1] [ev, ev] \<lparr>rows = [], seq = 0\<rparr>)"
    by (simp add: settled_def reconcile_def turn_def callback_def finalize_def db_get_def)
  have 3: "\<not> one_per_key ?d1"
    unfolding 1 by (simp add: one_per_key_def row_key_def)
  have "\<forall>e \<in> set [ev, ev]. db_get ?d1 e \<noteq> None \<and> colored e ?d1"
    unfolding 1 by (simp add: db_get_def same_key_def colored_def)
  from reconcile_again [OF this] 3
  have 4: "\<not> one_per_key (db (reconcile fails2 sched2 [ev, ev] ?d1))" by simp
  from 1 2 3 4 show ?thesis by blast
qed

end
